theory Spec2Isabelle
  imports Main "HOL-Library.AList"
begin

section \<open>The RDM responder test runner (tools/rdm/TestRunner.py)\<close>

text \<open>
  A shallow embedding of \<^verbatim>\<open>TestRunner.py\<close>: the property store
  \<^verbatim>\<open>DeviceProperties\<close>, the \<^verbatim>\<open>QueuedMessageFetcher\<close>, and the registry, dependency
  resolver, topological sort and run loop of \<^verbatim>\<open>TestRunner\<close>.

  Python dictionaries are association lists (maps where the order is never read), Python
  sets are duplicate-free lists or HOL sets, exceptions are values of the type \<open>exn\<close>, and
  the calls to \<^verbatim>\<open>logging\<close> append to an explicit list of log records. A call that does
  not return (the event loop waiting for a response that never comes) is the value
  \<open>Blocked\<close>.
\<close>

subsection \<open>Exceptions, outcomes and log records\<close>

type_synonym property_name = string

datatype exn =
    DuplicatePropertyException property_name
  | MissingPropertyException property_name
  | CircularDepdendancyException
  | AttributeError string
  | KeyError
  | ValueError
  | UnboundLocalError
  | RecursionLimit

text \<open>How a call that drives the event loop ends: it returns, it raises, or it never
  returns with the responses the device gives.\<close>

datatype 'a outcome = Returned 'a | Raised exn 'a | Blocked 'a

datatype level = DEBUG | INFO | WARNING | ERROR

datatype message =
    Multiple_sets_of_property property_name
  | Queued_message_hit_loop_limit int
  | Transport_error
  | Response_code_error
  | Got_ACK_TIMER int
  | Empty_status_message_but_queued int
  | Test_order
  | Starting_test
  | Property_not_found_skipping_test property_name
  | Test_finished

type_synonym log_record = "level \<times> message"

subsection \<open>Dictionaries, sets and lists of Python\<close>

text \<open>\<^verbatim>\<open>d[k]\<close> raises KeyError for a missing key.\<close>

definition dict_get :: "('k \<times> 'v) list \<Rightarrow> 'k \<Rightarrow> exn + 'v" where
  "dict_get d k = (case map_of d k of None \<Rightarrow> Inl KeyError | Some v \<Rightarrow> Inr v)"

text \<open>A set whose elements are popped is a duplicate-free list; \<^verbatim>\<open>add\<close> leaves a set that
  holds the element unchanged.\<close>

definition set_add :: "'a list \<Rightarrow> 'a \<Rightarrow> 'a list" where
  "set_add s x = (if x \<in> set s then s else s @ [x])"

text \<open>\<^verbatim>\<open>set.pop()\<close> removes and returns an arbitrary element: which one depends on the
  hashes of the elements (for test objects, on their addresses), not on the graph. The
  choice is a parameter: the \<open>k\<close>-th pop of a run takes the element at position
  \<open>pick k mod length s\<close>. The caller pops from a non-empty set only.\<close>

type_synonym pop_order = "nat \<Rightarrow> nat"

definition set_pop :: "nat \<Rightarrow> 'a list \<Rightarrow> 'a \<times> 'a list" where
  "set_pop i s = (let x = s ! (i mod length s) in (x, removeAll x s))"

text \<open>\<^verbatim>\<open>list.remove(x)\<close> removes the first occurrence and raises ValueError when there is
  none.\<close>

definition list_remove :: "'a list \<Rightarrow> 'a \<Rightarrow> exn + 'a list" where
  "list_remove xs x = (if x \<in> set xs then Inr (remove1 x xs) else Inl ValueError)"

subsection \<open>DeviceProperties\<close>

record 'v DeviceProperties =
  property_names :: "property_name list"
  properties :: "property_name \<rightharpoonup> 'v"

definition DeviceProperties_init :: "property_name list \<Rightarrow> 'v DeviceProperties" where
  "DeviceProperties_init names = \<lparr>property_names = names, properties = Map.empty\<rparr>"

text \<open>The method \<^verbatim>\<open>__getattr__\<close>: a name that is not a key of the dictionary raises
  AttributeError. Python calls this method only for a name that normal attribute lookup
  does not find (see \<open>getattr\<close> below).\<close>

definition DeviceProperties_getattr :: "'v DeviceProperties \<Rightarrow> property_name \<Rightarrow> exn + 'v" where
  "DeviceProperties_getattr dev p =
     (case properties dev p of
        None \<Rightarrow> Inl (AttributeError p)
      | Some v \<Rightarrow> Inr v)"

text \<open>\<^verbatim>\<open>__setattr__\<close>: warns when the name is already a key, then stores the value. The
  result is the log records written and the updated store.\<close>

definition DeviceProperties_setattr ::
  "'v DeviceProperties \<Rightarrow> property_name \<Rightarrow> 'v \<Rightarrow> log_record list \<times> 'v DeviceProperties" where
  "DeviceProperties_setattr dev p v =
     ((if properties dev p \<noteq> None then [(WARNING, Multiple_sets_of_property p)] else []),
      dev\<lparr>properties := (properties dev)(p \<mapsto> v)\<rparr>)"

text \<open>A sequence of attribute assignments, in order; the log records are concatenated.\<close>

fun setattr_all ::
  "'v DeviceProperties \<Rightarrow> (property_name \<times> 'v) list \<Rightarrow> log_record list \<times> 'v DeviceProperties" where
  "setattr_all dev [] = ([], dev)"
| "setattr_all dev ((p, v) # kvs) =
     (case DeviceProperties_setattr dev p v of
        (l1, dev1) \<Rightarrow> (case setattr_all dev1 kvs of (l2, dev2) \<Rightarrow> (l1 @ l2, dev2)))"

text \<open>
  What reading an attribute of the object gives: a property stored by \<^verbatim>\<open>__setattr__\<close>
  (what \<^verbatim>\<open>__getattr__\<close> returns), or an attribute of the object itself: the list
  \<^verbatim>\<open>_property_names\<close> and the dictionary \<^verbatim>\<open>_properties\<close>, or a member of the class (a
  method, the docstring), of which only the name is kept.
\<close>

datatype 'v attribute =
    Stored 'v
  | Property_names "property_name list"
  | Properties "property_name \<rightharpoonup> 'v"
  | Class_member string

text \<open>The dictionary of the instance: \<^verbatim>\<open>__init__\<close> writes its two entries with
  \<^verbatim>\<open>object.__setattr__\<close>. The method \<^verbatim>\<open>__setattr__\<close> of the class never writes to it: it
  writes to the dictionary \<^verbatim>\<open>_properties\<close>.\<close>

definition instance_dict :: "'v DeviceProperties \<Rightarrow> string \<rightharpoonup> 'v attribute" where
  "instance_dict dev =
     [''_property_names'' \<mapsto> Property_names (property_names dev),
      ''_properties'' \<mapsto> Properties (properties dev)]"

text \<open>The names that the class statement binds: the docstring and the five methods.\<close>

definition class_dict :: "string list" where
  "class_dict =
     [''__doc__'', ''__init__'', ''__str__'', ''__repr__'', ''__getattr__'', ''__setattr__'']"

text \<open>
  Normal attribute lookup (\<^verbatim>\<open>object.__getattribute__\<close>) finds the entries of the instance
  dictionary, the members of the class and the members of its base class \<^verbatim>\<open>object\<close>. The
  names that the interpreter gives to every object (\<^verbatim>\<open>__class__\<close>, \<^verbatim>\<open>__dict__\<close>,
  \<^verbatim>\<open>__module__\<close>, \<^verbatim>\<open>__hash__\<close> and so on) are not written in \<^verbatim>\<open>TestRunner.py\<close> and depend
  on the version of Python: they are the parameter \<open>builtin\<close>.
\<close>

definition normal_lookup ::
  "string list \<Rightarrow> 'v DeviceProperties \<Rightarrow> string \<Rightarrow> 'v attribute option" where
  "normal_lookup builtin dev name =
     (case instance_dict dev name of
        Some a \<Rightarrow> Some a
      | None \<Rightarrow>
          if name \<in> set class_dict \<or> name \<in> set builtin
          then Some (Class_member name) else None)"

text \<open>\<^verbatim>\<open>getattr(device, name)\<close>, also written \<^verbatim>\<open>device.name\<close>: normal lookup first, and
  \<^verbatim>\<open>__getattr__\<close> only when it finds nothing.\<close>

definition getattr ::
  "string list \<Rightarrow> 'v DeviceProperties \<Rightarrow> string \<Rightarrow> exn + 'v attribute" where
  "getattr builtin dev name =
     (case normal_lookup builtin dev name of
        Some a \<Rightarrow> Inr a
      | None \<Rightarrow>
          (case DeviceProperties_getattr dev name of
             Inl e \<Rightarrow> Inl e
           | Inr v \<Rightarrow> Inr (Stored v)))"

subsection \<open>QueuedMessageFetcher\<close>

text \<open>
  Modelled from the spec: the response object of the RDM client (OlaClient, RDMAPI) is not
  part of this file. The spec lists the fields the fetcher reads: a success flag, the
  response code, the response classification (positive ack, timer ack, negative ack,
  other), the timer delay, the negative-ack reason, the request kind and message type
  being acknowledged, and a pending-message count. The constants the fetcher compares
  them with are the first constructor of each type.
\<close>

datatype response_code = RDM_COMPLETED_OK | Other_response_code
datatype response_type = RDM_ACK | RDM_ACK_TIMER | RDM_NACK_REASON | Other_response_type
datatype nack_reason = NR_UNKNOWN_PID | Other_nack_reason
datatype command_class = RDM_GET | Other_command_class

record response =
  status_succeeded :: bool
  response_code :: response_code
  response_type :: response_type
  ack_timer :: int
  nack_reason :: nack_reason
  command_class :: command_class
  pid :: int
  queued_messages :: int

text \<open>The decoded payload: what \<^verbatim>\<open>unpacked_data.get('messages', [])\<close> reads is the list
  under the key \<^verbatim>\<open>messages\<close>, when the payload has one.\<close>

type_synonym unpacked_data = "string list option"

text \<open>
  The fetcher object, with the state of the two collaborators it holds: the event loop
  (\<^verbatim>\<open>self._wrapper\<close>: the stop flag \<open>quit\<close> and the scheduled callbacks \<open>events\<close>, each a
  delay after which \<^verbatim>\<open>_FetchQueuedMessage\<close> is called) and the RDM API (\<^verbatim>\<open>self._api\<close>: the
  number of requests sent and not yet answered). \<open>fetches\<close> counts the calls of
  \<^verbatim>\<open>self._api.Get\<close>, and \<open>log\<close> is the log.
\<close>

record fetcher =
  limit :: int
  counter :: int
  queued_message_pid :: int
  status_message_pid :: int
  quit :: bool
  events :: "int list"
  outstanding :: nat
  fetches :: nat
  log :: "log_record list"

definition QueuedMessageFetcher_init :: "int \<Rightarrow> int \<Rightarrow> int \<Rightarrow> fetcher" where
  "QueuedMessageFetcher_init lim qpid spid =
     \<lparr>limit = lim, counter = 0, queued_message_pid = qpid, status_message_pid = spid,
      quit = False, events = [], outstanding = 0, fetches = 0, log = []\<rparr>"

definition logging :: "level \<Rightarrow> message \<Rightarrow> fetcher \<Rightarrow> fetcher" where
  "logging l m self = self\<lparr>log := log self @ [(l, m)]\<rparr>"

text \<open>
  Modelled from the spec: the event loop (ClientWrapper) is not part of this file. The
  spec gives its interface: run-until-stopped, stop, stop-if-no-pending-events,
  schedule-delayed-callback, reset-any-watchdog.
\<close>

definition wrapper_Stop :: "fetcher \<Rightarrow> fetcher" where
  "wrapper_Stop self = self\<lparr>quit := True\<rparr>"

definition wrapper_StopIfNoEvents :: "fetcher \<Rightarrow> fetcher" where
  "wrapper_StopIfNoEvents self = (if events self = [] then self\<lparr>quit := True\<rparr> else self)"

definition wrapper_AddEvent :: "int \<Rightarrow> fetcher \<Rightarrow> fetcher" where
  "wrapper_AddEvent delay self = self\<lparr>events := events self @ [delay]\<rparr>"

definition wrapper_Reset :: "fetcher \<Rightarrow> fetcher" where
  "wrapper_Reset self = self"

text \<open>
  Modelled from the spec: \<^verbatim>\<open>Get\<close> of the RDM API is not part of this file. It issues one
  asynchronous request, whose callback is invoked exactly once, and reports that the
  request was sent.
\<close>

definition api_Get :: "fetcher \<Rightarrow> bool \<times> fetcher" where
  "api_Get self = (True, self\<lparr>outstanding := outstanding self + 1, fetches := fetches self + 1\<rparr>)"

text \<open>\<^verbatim>\<open>_FetchQueuedMessage\<close>: the result is the truth value of what the method returns
  (\<^verbatim>\<open>None\<close> at the loop limit).\<close>

definition FetchQueuedMessage :: "fetcher \<Rightarrow> bool \<times> fetcher" where
  "FetchQueuedMessage self =
     (if counter self = limit self
      then (False, wrapper_Stop (logging ERROR (Queued_message_hit_loop_limit (counter self)) self))
      else api_Get (self\<lparr>counter := counter self + 1\<rparr>))"

definition HandleResponse :: "fetcher \<Rightarrow> response \<Rightarrow> unpacked_data \<Rightarrow> fetcher" where
  "HandleResponse self response unpacked =
     (if \<not> status_succeeded response
      then wrapper_StopIfNoEvents (logging ERROR Transport_error self)
      else if response_code response \<noteq> RDM_COMPLETED_OK
      then wrapper_StopIfNoEvents (logging ERROR Response_code_error self)
      else if response_type response = RDM_ACK_TIMER
      then wrapper_Reset (wrapper_AddEvent (ack_timer response)
             (logging DEBUG (Got_ACK_TIMER (ack_timer response)) self))
      else if response_type response = RDM_NACK_REASON \<and>
              nack_reason response = NR_UNKNOWN_PID \<and>
              command_class response = RDM_GET \<and>
              pid response = queued_message_pid self
      then wrapper_StopIfNoEvents self
      else if response_type response = RDM_ACK \<and>
              command_class response = RDM_GET \<and>
              pid response = status_message_pid self \<and>
              (case unpacked of None \<Rightarrow> [] | Some ms \<Rightarrow> ms) = []
      then (if queued_messages response \<noteq> 0
            then logging ERROR (Empty_status_message_but_queued (queued_messages response))
                   (wrapper_StopIfNoEvents self)
            else wrapper_StopIfNoEvents self)
      else snd (FetchQueuedMessage self))"

lemma events_FetchQueuedMessage [simp]:
  "events (snd (FetchQueuedMessage self)) = events self"
  by (simp add: FetchQueuedMessage_def api_Get_def wrapper_Stop_def logging_def)

text \<open>
  Modelled from the spec: \<^verbatim>\<open>Run\<close> of the event loop runs until stopped: each call runs
  until a stop is asked for during that call. While it is not stopped it completes an
  outstanding request, calling \<^verbatim>\<open>_HandleResponse\<close> with the next response of the device, or
  else fires the next scheduled callback. With a request outstanding and no response left,
  or with nothing pending at all, it waits for ever.
\<close>

function Run_loop ::
  "fetcher \<Rightarrow> (response \<times> unpacked_data) list
     \<Rightarrow> (fetcher \<times> (response \<times> unpacked_data) list) outcome" where
  "Run_loop self rs =
     (if quit self then Returned (self, rs)
      else if 0 < outstanding self then
        (case rs of
           [] \<Rightarrow> Blocked (self, rs)
         | (response, unpacked) # rest \<Rightarrow>
             Run_loop (HandleResponse (self\<lparr>outstanding := outstanding self - 1\<rparr>) response unpacked)
               rest)
      else
        (case events self of
           [] \<Rightarrow> Blocked (self, rs)
         | delay # later \<Rightarrow> Run_loop (snd (FetchQueuedMessage (self\<lparr>events := later\<rparr>))) rs))"
  by pat_completeness auto
termination
  by (relation "measures [\<lambda>(self, rs). length rs, \<lambda>(self, rs). length (events self)]") auto

declare Run_loop.simps [simp del]

definition wrapper_Run ::
  "fetcher \<Rightarrow> (response \<times> unpacked_data) list
     \<Rightarrow> (fetcher \<times> (response \<times> unpacked_data) list) outcome" where
  "wrapper_Run self rs = Run_loop (self\<lparr>quit := False\<rparr>) rs"

definition FetchAllMessages ::
  "fetcher \<Rightarrow> (response \<times> unpacked_data) list
     \<Rightarrow> (fetcher \<times> (response \<times> unpacked_data) list) outcome" where
  "FetchAllMessages self rs =
     (case FetchQueuedMessage (self\<lparr>counter := 0\<rparr>) of
        (sent, self1) \<Rightarrow> if sent then wrapper_Run self1 rs else Returned (self1, rs))"

subsection \<open>TestRunner: the registry\<close>

text \<open>
  A test class is a Python class object; \<open>'c\<close> is the type of class objects and the
  table \<open>classes\<close> gives the attributes of each: its \<^verbatim>\<open>__name__\<close>, \<^verbatim>\<open>PROVIDES\<close>, \<^verbatim>\<open>DEPS\<close> and
  what \<^verbatim>\<open>Requires()\<close> returns on its instances.
\<close>

record 'c test_class =
  class_name :: string
  PROVIDES :: "property_name list"
  REQUIRES :: "property_name list"
  DEPS :: "'c list"

record 'c TestRunner =
  property_map :: "(property_name \<times> 'c) list"
  all_tests :: "'c list"
  message_fetcher :: fetcher

text \<open>The constructor makes the fetcher with the default limit of 25; the two PIDs come
  from the PID store.\<close>

definition TestRunner_init :: "int \<Rightarrow> int \<Rightarrow> 'c TestRunner" where
  "TestRunner_init qpid spid =
     \<lparr>property_map = [], all_tests = [], message_fetcher = QueuedMessageFetcher_init 25 qpid spid\<rparr>"

text \<open>The loop of \<^verbatim>\<open>RegisterTest\<close> over \<^verbatim>\<open>PROVIDES\<close>: the dictionary is updated in place, so
  it is returned with the exception too.\<close>

fun register_loop ::
  "'c \<Rightarrow> property_name list \<Rightarrow> (property_name \<times> 'c) list
     \<Rightarrow> exn option \<times> (property_name \<times> 'c) list" where
  "register_loop test_class [] pm = (None, pm)"
| "register_loop test_class (p # ps) pm =
     (if map_of pm p \<noteq> None then (Some (DuplicatePropertyException p), pm)
      else register_loop test_class ps (AList.update p test_class pm))"

definition RegisterTest ::
  "('c \<Rightarrow> 'c test_class) \<Rightarrow> 'c TestRunner \<Rightarrow> 'c \<Rightarrow> exn option \<times> 'c TestRunner" where
  "RegisterTest classes self test_class =
     (case register_loop test_class (PROVIDES (classes test_class)) (property_map self) of
        (Some e, pm) \<Rightarrow> (Some e, self\<lparr>property_map := pm\<rparr>)
      | (None, pm) \<Rightarrow>
          (None, self\<lparr>property_map := pm, all_tests := all_tests self @ [test_class]\<rparr>))"

text \<open>Registering a sequence of classes, each exception ignored.\<close>

definition register_all :: "('c \<Rightarrow> 'c test_class) \<Rightarrow> 'c TestRunner \<Rightarrow> 'c list \<Rightarrow> 'c TestRunner" where
  "register_all classes self cs = fold (\<lambda>c s. snd (RegisterTest classes s c)) cs self"

subsection \<open>TestRunner: instantiating the tests\<close>

text \<open>
  A test object is an instance of a class; its second component is the number of objects
  constructed before it, which stands for its identity. \<open>PyNone\<close> is the placeholder that
  \<^verbatim>\<open>_AddTest\<close> stores while a class is being added.
\<close>

datatype 'c test_obj = PyNone | TestObj 'c nat

fun class_of :: "'c test_obj \<Rightarrow> 'c option" where
  "class_of PyNone = None"
| "class_of (TestObj c i) = Some c"

text \<open>The two dictionaries of \<^verbatim>\<open>_InstantiateTests\<close>, and the classes of the objects
  constructed so far, in order of construction.\<close>

record 'c resolver =
  class_name_to_object :: "'c \<rightharpoonup> 'c test_obj"
  deps_map :: "('c test_obj \<times> 'c test_obj set) list"
  instances :: "'c list"

definition resolver_init :: "'c resolver" where
  "resolver_init = \<lparr>class_name_to_object = Map.empty, deps_map = [], instances = []\<rparr>"

fun required_classes :: "(property_name \<times> 'c) list \<Rightarrow> property_name list \<Rightarrow> exn + 'c list" where
  "required_classes pm [] = Inr []"
| "required_classes pm (p # ps) =
     (case map_of pm p of
        None \<Rightarrow> Inl (MissingPropertyException p)
      | Some c \<Rightarrow>
          (case required_classes pm ps of
             Inl e \<Rightarrow> Inl e
           | Inr cs \<Rightarrow> Inr (c # cs)))"

text \<open>\<^verbatim>\<open>dep_classes\<close> of \<^verbatim>\<open>_AddTest\<close>: the producers of the required properties, then
  \<^verbatim>\<open>DEPS\<close>.\<close>

definition dep_classes ::
  "('c \<Rightarrow> 'c test_class) \<Rightarrow> (property_name \<times> 'c) list \<Rightarrow> 'c \<Rightarrow> exn + 'c list" where
  "dep_classes classes pm test_class =
     (case required_classes pm (REQUIRES (classes test_class)) of
        Inl e \<Rightarrow> Inl e
      | Inr cs \<Rightarrow> Inr (cs @ DEPS (classes test_class)))"

text \<open>
  \<^verbatim>\<open>_AddTest\<close> and its loop over \<^verbatim>\<open>dep_classes\<close>. The first argument is the depth of
  recursion left (the interpreter's recursion limit): \<^verbatim>\<open>_AddTest\<close> calls itself once per
  class on the path from the class first asked for.
\<close>

fun AddTest ::
  "nat \<Rightarrow> ('c \<Rightarrow> 'c test_class) \<Rightarrow> (property_name \<times> 'c) list \<Rightarrow> 'c resolver \<Rightarrow> 'c \<Rightarrow> 'c list
     \<Rightarrow> exn + ('c test_obj \<times> 'c resolver)"
and dep_loop ::
  "nat \<Rightarrow> ('c \<Rightarrow> 'c test_class) \<Rightarrow> (property_name \<times> 'c) list \<Rightarrow> 'c resolver \<Rightarrow> 'c list \<Rightarrow> 'c list
     \<Rightarrow> 'c test_obj list \<Rightarrow> exn + ('c test_obj list \<times> 'c resolver)"
where
  "AddTest 0 classes pm st test_class parents = Inl RecursionLimit"
| "AddTest (Suc n) classes pm st test_class parents =
     (case class_name_to_object st test_class of
        Some obj \<Rightarrow> Inr (obj, st)
      | None \<Rightarrow>
          (case dep_classes classes pm test_class of
             Inl e \<Rightarrow> Inl e
           | Inr dcs \<Rightarrow>
               (case dep_loop n classes pm
                       (st\<lparr>class_name_to_object := (class_name_to_object st)(test_class \<mapsto> PyNone),
                           instances := instances st @ [test_class]\<rparr>)
                       dcs (parents @ [test_class]) [] of
                  Inl e \<Rightarrow> Inl e
                | Inr (dep_objects, st2) \<Rightarrow>
                    Inr (TestObj test_class (length (instances st)),
                         st2\<lparr>class_name_to_object :=
                                (class_name_to_object st2)
                                  (test_class \<mapsto> TestObj test_class (length (instances st))),
                             deps_map :=
                                AList.update (TestObj test_class (length (instances st)))
                                  (set dep_objects) (deps_map st2)\<rparr>))))"
| "dep_loop n classes pm st [] new_parents dep_objects = Inr (dep_objects, st)"
| "dep_loop n classes pm st (dep_class # rest) new_parents dep_objects =
     (if dep_class \<in> set new_parents then Inl CircularDepdendancyException
      else
        (case AddTest n classes pm st dep_class new_parents of
           Inl e \<Rightarrow> Inl e
         | Inr (obj, st1) \<Rightarrow> dep_loop n classes pm st1 rest new_parents (dep_objects @ [obj])))"

fun InstantiateTests_loop ::
  "nat \<Rightarrow> ('c \<Rightarrow> 'c test_class) \<Rightarrow> (property_name \<times> 'c) list \<Rightarrow> 'c resolver \<Rightarrow> 'c list
     \<Rightarrow> exn + 'c resolver" where
  "InstantiateTests_loop n classes pm st [] = Inr st"
| "InstantiateTests_loop n classes pm st (test_class # rest) =
     (case AddTest n classes pm st test_class [] of
        Inl e \<Rightarrow> Inl e
      | Inr (obj, st1) \<Rightarrow> InstantiateTests_loop n classes pm st1 rest)"

definition InstantiateTests ::
  "nat \<Rightarrow> ('c \<Rightarrow> 'c test_class) \<Rightarrow> (property_name \<times> 'c) list \<Rightarrow> 'c list \<Rightarrow> exn + 'c resolver" where
  "InstantiateTests n classes pm tests_to_run =
     InstantiateTests_loop n classes pm resolver_init tests_to_run"

subsection \<open>TestRunner: the topological sort\<close>

text \<open>The dictionary from each test to the set of tests it depends on, in the order in
  which \<^verbatim>\<open>iteritems()\<close> yields it.\<close>

type_synonym 'a deps_dict = "('a \<times> 'a set) list"

text \<open>\<^verbatim>\<open>deps_dict[test].discard(x)\<close>.\<close>

definition dict_discard :: "'a deps_dict \<Rightarrow> 'a \<Rightarrow> 'a \<Rightarrow> 'a deps_dict" where
  "dict_discard deps_dict test x =
     map (\<lambda>(t, d). if t = test then (t, d - {x}) else (t, d)) deps_dict"

text \<open>The loop over \<^verbatim>\<open>remaining_tests\<close> in the body of the while loop.\<close>

fun discard_loop ::
  "'a \<Rightarrow> 'a list \<Rightarrow> 'a deps_dict \<Rightarrow> 'a list \<Rightarrow> 'a list
     \<Rightarrow> exn + ('a deps_dict \<times> 'a list \<times> 'a list)" where
  "discard_loop current_test [] deps_dict no_deps remove_list =
     Inr (deps_dict, no_deps, remove_list)"
| "discard_loop current_test (test # rest) deps_dict no_deps remove_list =
     (case dict_get deps_dict test of
        Inl e \<Rightarrow> Inl e
      | Inr deps \<Rightarrow>
          (if deps - {current_test} = {}
           then discard_loop current_test rest (dict_discard deps_dict test current_test)
                  (set_add no_deps test) (remove_list @ [test])
           else discard_loop current_test rest (dict_discard deps_dict test current_test)
                  no_deps remove_list))"

text \<open>The loop over \<^verbatim>\<open>remove_list\<close>.\<close>

fun remove_loop :: "'a list \<Rightarrow> 'a list \<Rightarrow> exn + 'a list" where
  "remove_loop remaining_tests [] = Inr remaining_tests"
| "remove_loop remaining_tests (test # rest) =
     (case list_remove remaining_tests test of
        Inl e \<Rightarrow> Inl e
      | Inr remaining1 \<Rightarrow> remove_loop remaining1 rest)"

lemma remove_loop_length:
  "remove_loop rem rl = Inr rem' \<Longrightarrow> length rem' + length rl = length rem"
  by (induction rl arbitrary: rem)
     (auto simp: list_remove_def length_remove1 split: if_splits sum.splits,
      metis One_nat_def Suc_pred length_pos_if_in_set)

lemma discard_loop_length:
  "discard_loop cur ts dd nd rl = Inr (dd', nd', rl') \<Longrightarrow>
     length nd' + length rl \<le> length nd + length rl'"
proof (induction ts arbitrary: dd nd rl)
  case Nil
  then show ?case by simp
next
  case (Cons t ts)
  then show ?case
    by (fastforce simp: set_add_def split: sum.splits if_splits)
qed

lemma set_pop_length:
  "set_pop i s = (x, s') \<Longrightarrow> s \<noteq> [] \<Longrightarrow> length s' < length s"
  by (auto simp: set_pop_def Let_def length_removeAll_less)

text \<open>The while loop. Its result is the list \<^verbatim>\<open>tests\<close> and what is left of
  \<^verbatim>\<open>remaining_tests\<close> when \<^verbatim>\<open>no_deps\<close> is empty; \<open>k\<close> counts the pops.\<close>

function while_loop ::
  "pop_order \<Rightarrow> nat \<Rightarrow> 'a deps_dict \<Rightarrow> 'a list \<Rightarrow> 'a list \<Rightarrow> 'a list
     \<Rightarrow> exn + ('a list \<times> 'a list)" where
  "while_loop pick k deps_dict remaining_tests no_deps tests =
     (if no_deps = [] then Inr (tests, remaining_tests)
      else
        (case set_pop (pick k) no_deps of
           (current_test, no_deps1) \<Rightarrow>
             (case discard_loop current_test remaining_tests deps_dict no_deps1 [] of
                Inl e \<Rightarrow> Inl e
              | Inr (deps_dict2, no_deps2, remove_list) \<Rightarrow>
                  (case remove_loop remaining_tests remove_list of
                     Inl e \<Rightarrow> Inl e
                   | Inr remaining2 \<Rightarrow>
                       while_loop pick (Suc k) deps_dict2 remaining2 no_deps2
                         (tests @ [current_test])))))"
  by pat_completeness auto
termination
proof (relation "measure (\<lambda>(pick, k, dd, rem, nd, tests). length nd + length rem)", goal_cases)
  case 1
  show ?case by simp
next
  case (2 pick k dd rem nd tests cur nd1 res dd2 rest nd2 rl rem2)
  have "length nd1 < length nd"
    using set_pop_length [of "pick k" nd cur nd1] 2 by simp
  moreover have "length nd2 \<le> length nd1 + length rl"
    using discard_loop_length [of cur rem dd nd1 "[]" dd2 nd2 rl] 2 by simp
  moreover have "length rem2 + length rl = length rem"
    using remove_loop_length [of rem rl rem2] 2 by simp
  ultimately show ?case by simp
qed

declare while_loop.simps [simp del]

definition TopologicalSort_loop :: "pop_order \<Rightarrow> 'a deps_dict \<Rightarrow> exn + ('a list \<times> 'a list)" where
  "TopologicalSort_loop pick deps_dict =
     while_loop pick 0 deps_dict
       (map fst (filter (\<lambda>(test, deps). deps \<noteq> {}) deps_dict))
       (fold (\<lambda>test s. set_add s test) (map fst (filter (\<lambda>(test, deps). deps = {}) deps_dict)) [])
       []"

definition TopologicalSort :: "pop_order \<Rightarrow> 'a deps_dict \<Rightarrow> exn + 'a list" where
  "TopologicalSort pick deps_dict =
     (case TopologicalSort_loop pick deps_dict of
        Inl e \<Rightarrow> Inl e
      | Inr (tests, remaining_tests) \<Rightarrow> Inr tests)"

subsection \<open>TestRunner: running the tests\<close>

definition tests_to_run :: "('c \<Rightarrow> 'c test_class) \<Rightarrow> 'c TestRunner \<Rightarrow> string list option \<Rightarrow> 'c list" where
  "tests_to_run classes self filter_arg =
     (case filter_arg of
        None \<Rightarrow> all_tests self
      | Some names \<Rightarrow> filter (\<lambda>test. class_name (classes test) \<in> set names) (all_tests self))"

text \<open>\<^verbatim>\<open>test.Requires()\<close>; the placeholder \<^verbatim>\<open>None\<close> has no such method.\<close>

definition Requires :: "('c \<Rightarrow> 'c test_class) \<Rightarrow> 'c test_obj \<Rightarrow> exn + property_name list" where
  "Requires classes test =
     (case test of
        PyNone \<Rightarrow> Inl (AttributeError ''Requires'')
      | TestObj c i \<Rightarrow> Inr (REQUIRES (classes c)))"

text \<open>The state of the loop of \<^verbatim>\<open>RunTests\<close>: the fetcher, the device, the local variable
  \<^verbatim>\<open>property\<close> (unbound at first), and the tests whose \<^verbatim>\<open>Run()\<close> was called, in order.\<close>

record ('c, 'v) run_state =
  fetcher :: fetcher
  device :: "'v DeviceProperties"
  property :: "property_name option"
  executed :: "'c test_obj list"

text \<open>The loop \<^verbatim>\<open>for property in test.Requires(): getattr(device, property)\<close>: whether it
  ended without AttributeError, and the variable \<^verbatim>\<open>property\<close> after it. \<open>builtin\<close> holds the
  attribute names of the interpreter, as for \<open>getattr\<close>.\<close>

fun check_requires ::
  "string list \<Rightarrow> 'v DeviceProperties \<Rightarrow> property_name list \<Rightarrow> property_name option
     \<Rightarrow> bool \<times> property_name option" where
  "check_requires builtin dev [] prop = (True, prop)"
| "check_requires builtin dev (p # ps) prop =
     (case getattr builtin dev p of
        Inl e \<Rightarrow> (False, Some p)
      | Inr v \<Rightarrow> check_requires builtin dev ps (Some p))"

text \<open>The skip of a test: the log message names the variable \<^verbatim>\<open>property\<close>, which must be
  bound.\<close>

definition skip_test ::
  "('c, 'v) run_state \<Rightarrow> property_name option \<Rightarrow> exn + ('c, 'v) run_state" where
  "skip_test st prop =
     (case prop of
        None \<Rightarrow> Inl UnboundLocalError
      | Some p \<Rightarrow>
          Inr (st\<lparr>fetcher := logging DEBUG (Property_not_found_skipping_test p) (fetcher st),
                  property := prop\<rparr>))"

text \<open>
  The loop of \<^verbatim>\<open>RunTests\<close> over the sorted tests. The body of a test (\<^verbatim>\<open>test.Run()\<close>) is
  not part of this file: \<open>Run\<close> is what it does to the device properties.
\<close>

fun run_tests_loop ::
  "string list \<Rightarrow> ('c \<Rightarrow> 'c test_class) \<Rightarrow> ('c test_obj \<Rightarrow> 'v DeviceProperties \<Rightarrow> 'v DeviceProperties)
     \<Rightarrow> 'c test_obj list \<Rightarrow> ('c, 'v) run_state \<Rightarrow> (response \<times> unpacked_data) list
     \<Rightarrow> (('c, 'v) run_state \<times> (response \<times> unpacked_data) list) outcome" where
  "run_tests_loop builtin classes Run [] st rs = Returned (st, rs)"
| "run_tests_loop builtin classes Run (test # tests) st rs =
     (case FetchAllMessages (fetcher st) rs of
        Blocked (f, rs1) \<Rightarrow> Blocked (st\<lparr>fetcher := f\<rparr>, rs1)
      | Raised e (f, rs1) \<Rightarrow> Raised e (st\<lparr>fetcher := f\<rparr>, rs1)
      | Returned (f, rs1) \<Rightarrow>
          (case Requires classes test of
             Inl e \<Rightarrow>
               (case skip_test (st\<lparr>fetcher := logging DEBUG Starting_test f\<rparr>) (property st) of
                  Inl e \<Rightarrow> Raised e (st\<lparr>fetcher := logging DEBUG Starting_test f\<rparr>, rs1)
                | Inr st1 \<Rightarrow> run_tests_loop builtin classes Run tests st1 rs1)
           | Inr ps \<Rightarrow>
               (case check_requires builtin (device st) ps (property st) of
                  (ok, prop) \<Rightarrow>
                    if ok
                    then run_tests_loop builtin classes Run tests
                           (st\<lparr>fetcher := logging INFO Test_finished (logging DEBUG Starting_test f),
                               device := Run test (device st),
                               property := prop,
                               executed := executed st @ [test]\<rparr>)
                           rs1
                    else
                      (case skip_test (st\<lparr>fetcher := logging DEBUG Starting_test f\<rparr>) prop of
                         Inl e \<Rightarrow> Raised e (st\<lparr>fetcher := logging DEBUG Starting_test f\<rparr>, rs1)
                       | Inr st1 \<Rightarrow> run_tests_loop builtin classes Run tests st1 rs1))))"

text \<open>
  \<^verbatim>\<open>RunTests\<close>. An exception of \<^verbatim>\<open>_InstantiateTests\<close> leaves the method before the loop
  starts. \<open>builtin\<close> holds the attribute names of the interpreter, \<open>n\<close> is the recursion
  limit and \<open>pick\<close> the order of \<^verbatim>\<open>set.pop()\<close>. The sort reads
  the dictionary in the order of insertion: the order of \<^verbatim>\<open>iteritems()\<close> only decides
  where a test stands in \<^verbatim>\<open>no_deps\<close>, from which \<open>pick\<close> takes any element.
\<close>

definition RunTests ::
  "string list \<Rightarrow> nat \<Rightarrow> ('c \<Rightarrow> 'c test_class) \<Rightarrow> ('c test_obj \<Rightarrow> 'v DeviceProperties \<Rightarrow> 'v DeviceProperties)
     \<Rightarrow> pop_order \<Rightarrow> 'c TestRunner \<Rightarrow> string list option \<Rightarrow> (response \<times> unpacked_data) list
     \<Rightarrow> ('c test_obj list \<times> ('c, 'v) run_state) outcome" where
  "RunTests builtin n classes Run pick self filter_arg rs =
     (case InstantiateTests n classes (property_map self) (tests_to_run classes self filter_arg) of
        Inl e \<Rightarrow>
          Raised e ([], \<lparr>fetcher = message_fetcher self,
                         device = DeviceProperties_init (map fst (property_map self)),
                         property = None, executed = []\<rparr>)
      | Inr res \<Rightarrow>
          (case TopologicalSort pick (deps_map res) of
             Inl e \<Rightarrow>
               Raised e ([], \<lparr>fetcher = message_fetcher self,
                              device = DeviceProperties_init (map fst (property_map self)),
                              property = None, executed = []\<rparr>)
           | Inr tests \<Rightarrow>
               (case run_tests_loop builtin classes Run tests
                       \<lparr>fetcher = logging DEBUG Test_order (message_fetcher self),
                        device = DeviceProperties_init (map fst (property_map self)),
                        property = None, executed = []\<rparr> rs of
                  Returned (st, rs1) \<Rightarrow> Returned (tests, st)
                | Raised e (st, rs1) \<Rightarrow> Raised e (tests, st)
                | Blocked (st, rs1) \<Rightarrow> Blocked (tests, st))))"

section \<open>Predicates and examples of the claims\<close>

subsection \<open>Responses and states of the fetcher\<close>

text \<open>A flow-control timer response: the third branch of \<^verbatim>\<open>_HandleResponse\<close>.\<close>

definition is_timer :: "response \<Rightarrow> bool" where
  "is_timer r \<longleftrightarrow> status_succeeded r \<and> response_code r = RDM_COMPLETED_OK \<and>
     response_type r = RDM_ACK_TIMER"

text \<open>A successful response that leaves more messages to fetch: one that no branch of
  \<^verbatim>\<open>_HandleResponse\<close> before the last takes. The two PIDs are those of the fetcher.\<close>

definition more_remain :: "int \<Rightarrow> int \<Rightarrow> response \<times> unpacked_data \<Rightarrow> bool" where
  "more_remain qpid spid ru \<longleftrightarrow>
     (case ru of (r, u) \<Rightarrow>
        status_succeeded r \<and> response_code r = RDM_COMPLETED_OK \<and>
        response_type r \<noteq> RDM_ACK_TIMER \<and>
        \<not> (response_type r = RDM_NACK_REASON \<and> nack_reason r = NR_UNKNOWN_PID \<and>
           command_class r = RDM_GET \<and> pid r = qpid) \<and>
        \<not> (response_type r = RDM_ACK \<and> command_class r = RDM_GET \<and>
           pid r = spid \<and> (u = None \<or> u = Some [])))"

text \<open>The log records that the timer responses of a list leave.\<close>

definition timer_log :: "(response \<times> unpacked_data) list \<Rightarrow> log_record list" where
  "timer_log rs =
     map (\<lambda>ru. (DEBUG, Got_ACK_TIMER (ack_timer (fst ru))))
       (filter (\<lambda>ru. is_timer (fst ru)) rs)"

text \<open>The fetcher between two drain cycles (nothing sent, nothing scheduled), and the
  fetcher that waits for the answer to its one request.\<close>

definition idle :: "fetcher \<Rightarrow> bool" where
  "idle self \<longleftrightarrow> outstanding self = 0 \<and> events self = []"

definition awaiting :: "fetcher \<Rightarrow> bool" where
  "awaiting self \<longleftrightarrow> \<not> quit self \<and> outstanding self = 1 \<and> events self = []"

text \<open>How often the loop limit error stands in the log.\<close>

definition loop_limit_errors :: "fetcher \<Rightarrow> nat" where
  "loop_limit_errors self =
     length (filter (\<lambda>l. l = (ERROR, Queued_message_hit_loop_limit (limit self))) (log self))"

text \<open>Three responses: a timer of some milliseconds, the acknowledgement of a queued message
  of another PID (more may follow), and the acknowledgement of a status message request
  with no messages (the queue is empty).\<close>

definition timer_response :: "int \<Rightarrow> response" where
  "timer_response ms =
     \<lparr>status_succeeded = True, response_code = RDM_COMPLETED_OK,
      response_type = RDM_ACK_TIMER, ack_timer = ms, nack_reason = Other_nack_reason,
      command_class = RDM_GET, pid = 32, queued_messages = 0\<rparr>"

definition more_response :: "response" where
  "more_response =
     \<lparr>status_succeeded = True, response_code = RDM_COMPLETED_OK,
      response_type = RDM_ACK, ack_timer = 0, nack_reason = Other_nack_reason,
      command_class = RDM_GET, pid = 240, queued_messages = 3\<rparr>"

definition empty_status_response :: "response" where
  "empty_status_response =
     \<lparr>status_succeeded = True, response_code = RDM_COMPLETED_OK,
      response_type = RDM_ACK, ack_timer = 0, nack_reason = Other_nack_reason,
      command_class = RDM_GET, pid = 48, queued_messages = 0\<rparr>"

subsection \<open>Dependency graphs and orders\<close>

text \<open>The dependency set of a test in a dictionary (empty for a test that is no key).\<close>

definition deps_of :: "'a deps_dict \<Rightarrow> 'a \<Rightarrow> 'a set" where
  "deps_of deps_dict t = (case map_of deps_dict t of None \<Rightarrow> {} | Some d \<Rightarrow> d)"

text \<open>The edges of a dictionary: from a test to each test it depends on.\<close>

definition dep_rel :: "'a deps_dict \<Rightarrow> ('a \<times> 'a) set" where
  "dep_rel deps_dict = {(t, d). \<exists>ds. (t, ds) \<in> set deps_dict \<and> d \<in> ds}"

text \<open>A resolved acyclic dependency graph: a dictionary (no key twice) whose dependency
  sets hold keys only, with no cycle.\<close>

definition resolved_graph :: "'a deps_dict \<Rightarrow> bool" where
  "resolved_graph deps_dict \<longleftrightarrow>
     distinct (map fst deps_dict) \<and>
     (\<forall>(t, ds) \<in> set deps_dict. ds \<subseteq> fst ` set deps_dict) \<and>
     acyclic (dep_rel deps_dict)"

text \<open>\<open>a\<close> stands strictly before \<open>b\<close> in a list that holds \<open>b\<close>.\<close>

definition precedes :: "'a list \<Rightarrow> 'a \<Rightarrow> 'a \<Rightarrow> bool" where
  "precedes xs a b \<longleftrightarrow> b \<in> set xs \<and> a \<in> set (takeWhile (\<lambda>x. x \<noteq> b) xs)"

text \<open>Every element of the list has its dependencies among the elements before it.\<close>

definition ordered :: "'a deps_dict \<Rightarrow> 'a list \<Rightarrow> bool" where
  "ordered dd0 tests \<longleftrightarrow>
     (\<forall>i < length tests. deps_of dd0 (tests ! i) \<subseteq> set (take i tests))"

text \<open>
  The invariant of the while loop of the sort, for the dictionary \<open>dd0\<close> it started from:
  the keys are split into \<^verbatim>\<open>tests\<close>, \<^verbatim>\<open>no_deps\<close> and \<^verbatim>\<open>remaining_tests\<close>; the set of a
  remaining test is what is left of its dependencies, and something is left; a test of
  \<^verbatim>\<open>no_deps\<close> has all its dependencies in \<^verbatim>\<open>tests\<close>; and \<^verbatim>\<open>tests\<close> is ordered.
\<close>

definition loop_inv ::
  "'a deps_dict \<Rightarrow> 'a deps_dict \<Rightarrow> 'a list \<Rightarrow> 'a list \<Rightarrow> 'a list \<Rightarrow> bool" where
  "loop_inv dd0 dd rem nd tests \<longleftrightarrow>
     map fst dd = map fst dd0 \<and>
     distinct (tests @ nd @ rem) \<and>
     set tests \<union> set nd \<union> set rem = fst ` set dd0 \<and>
     (\<forall>t \<in> set rem. map_of dd t = Some (deps_of dd0 t - set tests) \<and>
                     deps_of dd0 t - set tests \<noteq> {}) \<and>
     (\<forall>t \<in> set nd. deps_of dd0 t \<subseteq> set tests) \<and>
     ordered dd0 tests"

text \<open>A dictionary in topological order of insertion: no key twice, and every dependency
  set holds keys inserted before only.\<close>

definition topo :: "('a \<times> 'a set) list \<Rightarrow> bool" where
  "topo al \<longleftrightarrow> distinct (map fst al) \<and>
     (\<forall>i < length al. snd (al ! i) \<subseteq> fst ` set (take i al))"

subsection \<open>Classes and the state of the resolver\<close>

text \<open>The edges between classes: from a class to each of its \<^verbatim>\<open>dep_classes\<close>.\<close>

definition class_rel ::
  "('c \<Rightarrow> 'c test_class) \<Rightarrow> (property_name \<times> 'c) list \<Rightarrow> ('c \<times> 'c) set" where
  "class_rel classes pm = {(c, d). \<exists>ds. dep_classes classes pm c = Inr ds \<and> d \<in> set ds}"

text \<open>A finite set of classes that is closed under dependencies and in which every
  required property has a producer.\<close>

definition universe ::
  "('c \<Rightarrow> 'c test_class) \<Rightarrow> (property_name \<times> 'c) list \<Rightarrow> 'c set \<Rightarrow> bool" where
  "universe classes pm U \<longleftrightarrow>
     finite U \<and> (\<forall>c \<in> U. \<exists>ds. dep_classes classes pm c = Inr ds \<and> set ds \<subseteq> U)"

text \<open>A list of classes each of which depends on the next.\<close>

definition chain :: "('c \<times> 'c) set \<Rightarrow> 'c list \<Rightarrow> bool" where
  "chain R xs \<longleftrightarrow> (\<forall>i. Suc i < length xs \<longrightarrow> (xs ! i, xs ! Suc i) \<in> R)"

text \<open>A class whose object is made and recorded, and the entry of a class in
  \<^verbatim>\<open>class_name_to_object\<close>.\<close>

definition is_done :: "'c resolver \<Rightarrow> 'c \<Rightarrow> bool" where
  "is_done st c \<longleftrightarrow> (\<exists>i. class_name_to_object st c = Some (TestObj c i))"

definition obj_of :: "'c resolver \<Rightarrow> 'c \<Rightarrow> 'c test_obj" where
  "obj_of st c = (case class_name_to_object st c of None \<Rightarrow> PyNone | Some obj \<Rightarrow> obj)"

text \<open>
  The invariant of \<^verbatim>\<open>_AddTest\<close>, for the list \<open>parents\<close> of the classes being added:
  \<^item> a class that maps to the placeholder is one of \<open>parents\<close>;
  \<^item> a class maps to an object of that class, which was constructed;
  \<^item> for a class whose object is recorded, all its \<^verbatim>\<open>dep_classes\<close> are recorded too, and
    \<^verbatim>\<open>deps_map\<close> maps its object to the set of their objects;
  \<^item> \<^verbatim>\<open>deps_map\<close> is in topological order;
  \<^item> every key of \<^verbatim>\<open>deps_map\<close> is the object of a class;
  \<^item> one object was constructed for each class of \<^verbatim>\<open>class_name_to_object\<close>, and no other.
\<close>

definition resolver_inv ::
  "('c \<Rightarrow> 'c test_class) \<Rightarrow> (property_name \<times> 'c) list \<Rightarrow> 'c resolver \<Rightarrow> 'c list \<Rightarrow> bool" where
  "resolver_inv classes pm st parents \<longleftrightarrow>
     (\<forall>c. class_name_to_object st c = Some PyNone \<longrightarrow> c \<in> set parents) \<and>
     (\<forall>c d i. class_name_to_object st c = Some (TestObj d i) \<longrightarrow>
        d = c \<and> i < length (instances st) \<and> instances st ! i = c) \<and>
     (\<forall>c. is_done st c \<longrightarrow>
        (\<exists>ds. dep_classes classes pm c = Inr ds \<and> (\<forall>d \<in> set ds. is_done st d) \<and>
           map_of (deps_map st) (obj_of st c) = Some (obj_of st ` set ds))) \<and>
     topo (deps_map st) \<and>
     (\<forall>obj \<in> fst ` set (deps_map st). \<exists>c. is_done st c \<and> obj = obj_of st c) \<and>
     distinct (instances st) \<and>
     set (instances st) = dom (class_name_to_object st)"

text \<open>What a call of \<^verbatim>\<open>_AddTest\<close> keeps of the state: the recorded objects, the classes
  that map to the placeholder, and the objects constructed before.\<close>

definition extends :: "'c resolver \<Rightarrow> 'c resolver \<Rightarrow> bool" where
  "extends st st' \<longleftrightarrow>
     (\<forall>c. is_done st c \<longrightarrow> class_name_to_object st' c = class_name_to_object st c) \<and>
     (\<forall>c. class_name_to_object st' c = Some PyNone \<longleftrightarrow>
          class_name_to_object st c = Some PyNone) \<and>
     (\<exists>more. instances st' = instances st @ more)"

text \<open>
  The contract of \<^verbatim>\<open>_AddTest\<close> within a universe \<open>U\<close>. It is called for a class of \<open>U\<close>
  that is none of \<open>parents\<close>, where \<open>parents\<close> and the class form a chain of distinct
  classes of \<open>U\<close> and the recursion limit leaves room for the rest of \<open>U\<close>. It raises
  CircularDepdendancyException, and then some class of \<open>U\<close> lies on a cycle, or it returns
  the recorded object of the class.
\<close>

definition AddTest_pre ::
  "('c \<Rightarrow> 'c test_class) \<Rightarrow> (property_name \<times> 'c) list \<Rightarrow> 'c set \<Rightarrow> nat \<Rightarrow> 'c resolver
     \<Rightarrow> 'c \<Rightarrow> 'c list \<Rightarrow> bool" where
  "AddTest_pre classes pm U n st c parents \<longleftrightarrow>
     resolver_inv classes pm st parents \<and> c \<notin> set parents \<and> c \<in> U \<and> set parents \<subseteq> U \<and>
     distinct parents \<and> chain (class_rel classes pm) (parents @ [c]) \<and>
     card U < n + length parents"

definition AddTest_post ::
  "('c \<Rightarrow> 'c test_class) \<Rightarrow> (property_name \<times> 'c) list \<Rightarrow> 'c set \<Rightarrow> 'c resolver \<Rightarrow> 'c \<Rightarrow> 'c list
     \<Rightarrow> exn + ('c test_obj \<times> 'c resolver) \<Rightarrow> bool" where
  "AddTest_post classes pm U st c parents res \<longleftrightarrow>
     (res = Inl CircularDepdendancyException \<and>
        (\<exists>d \<in> U. (d, d) \<in> (class_rel classes pm)\<^sup>+)) \<or>
     (\<exists>obj st'. res = Inr (obj, st') \<and> resolver_inv classes pm st' parents \<and>
        extends st st' \<and> is_done st' c \<and> obj = obj_of st' c)"

subsection \<open>Runs\<close>

text \<open>The tests that the loop of \<^verbatim>\<open>RunTests\<close> executes when nothing but the required
  properties decides: a test runs when reading each of its required properties from the
  device raises no AttributeError at its turn (the property is set, or its name is the
  name of an attribute of the object itself).\<close>

fun scheduled_runs ::
  "string list \<Rightarrow> ('c \<Rightarrow> 'c test_class) \<Rightarrow> ('c test_obj \<Rightarrow> 'v DeviceProperties \<Rightarrow> 'v DeviceProperties)
     \<Rightarrow> 'c test_obj list \<Rightarrow> 'v DeviceProperties \<Rightarrow> 'c test_obj list" where
  "scheduled_runs builtin classes Run [] dev = []"
| "scheduled_runs builtin classes Run (test # tests) dev =
     (case Requires classes test of
        Inl e \<Rightarrow> scheduled_runs builtin classes Run tests dev
      | Inr ps \<Rightarrow>
          if fst (check_requires builtin dev ps None)
          then test # scheduled_runs builtin classes Run tests (Run test dev)
          else scheduled_runs builtin classes Run tests dev)"

text \<open>What the caller of \<^verbatim>\<open>RunTests\<close> observes: the exception raised (if any), whether the
  call never returned, the sorted tests, the tests executed, the number of fetches and the
  log.\<close>

definition run_summary ::
  "('c test_obj list \<times> ('c, 'v) run_state) outcome
     \<Rightarrow> exn option \<times> bool \<times> 'c test_obj list \<times> 'c test_obj list \<times> nat \<times> log_record list" where
  "run_summary out =
     (case out of
        Returned (tests, st) \<Rightarrow>
          (None, False, tests, executed st, fetches (fetcher st), log (fetcher st))
      | Raised e (tests, st) \<Rightarrow>
          (Some e, False, tests, executed st, fetches (fetcher st), log (fetcher st))
      | Blocked (tests, st) \<Rightarrow>
          (None, True, tests, executed st, fetches (fetcher st), log (fetcher st)))"

subsection \<open>Attribute names\<close>

text \<open>The names that normal attribute lookup finds on the object, for the names \<open>builtin\<close>
  of the interpreter. Every other name is a property name: reading it calls
  \<^verbatim>\<open>__getattr__\<close>.\<close>

definition attribute_names :: "string list \<Rightarrow> string list" where
  "attribute_names builtin = [''_property_names'', ''_properties''] @ class_dict @ builtin"

text \<open>An example of the names of the interpreter: the ones that CPython 2.7 adds to those of
  the class statement, for an instance of a class derived from \<^verbatim>\<open>object\<close>.\<close>

definition python27_names :: "string list" where
  "python27_names =
     [''__class__'', ''__delattr__'', ''__dict__'', ''__format__'', ''__getattribute__'',
      ''__hash__'', ''__module__'', ''__new__'', ''__reduce__'', ''__reduce_ex__'',
      ''__sizeof__'', ''__subclasshook__'', ''__weakref__'']"

subsection \<open>Example classes\<close>

datatype example = Test_A | Test_B | Test_C | Test_D | Test_X

text \<open>Two classes that both provide \<^verbatim>\<open>dmx_address\<close>; the second provides \<^verbatim>\<open>label\<close> first.\<close>

definition duplicate_classes :: "example \<Rightarrow> example test_class" where
  "duplicate_classes c =
     (if c = Test_A
      then \<lparr>class_name = ''A'', PROVIDES = [''dmx_address''], REQUIRES = [], DEPS = []\<rparr>
      else \<lparr>class_name = ''B'', PROVIDES = [''label'', ''dmx_address'', ''footprint''],
            REQUIRES = [], DEPS = []\<rparr>)"

text \<open>Two classes with no dependencies and no required properties.\<close>

definition independent_classes :: "example \<Rightarrow> example test_class" where
  "independent_classes c =
     (if c = Test_A
      then \<lparr>class_name = ''A'', PROVIDES = [], REQUIRES = [], DEPS = []\<rparr>
      else \<lparr>class_name = ''B'', PROVIDES = [], REQUIRES = [], DEPS = []\<rparr>)"

definition independent_runner :: "example TestRunner" where
  "independent_runner =
     register_all independent_classes (TestRunner_init 32 48) [Test_A, Test_B]"

text \<open>The diamond: \<open>C\<close> requires the properties of \<open>A\<close> and \<open>B\<close>; \<open>A\<close> requires the property
  of \<open>D\<close>, and \<open>B\<close> names \<open>D\<close> in \<^verbatim>\<open>DEPS\<close>.\<close>

definition diamond_classes :: "example \<Rightarrow> example test_class" where
  "diamond_classes c =
     (case c of
        Test_A \<Rightarrow> \<lparr>class_name = ''A'', PROVIDES = [''a''], REQUIRES = [''d''], DEPS = []\<rparr>
      | Test_B \<Rightarrow> \<lparr>class_name = ''B'', PROVIDES = [''b''], REQUIRES = [], DEPS = [Test_D]\<rparr>
      | Test_C \<Rightarrow> \<lparr>class_name = ''C'', PROVIDES = [], REQUIRES = [''a'', ''b''], DEPS = []\<rparr>
      | Test_D \<Rightarrow> \<lparr>class_name = ''D'', PROVIDES = [''d''], REQUIRES = [], DEPS = []\<rparr>
      | Test_X \<Rightarrow> \<lparr>class_name = ''X'', PROVIDES = [], REQUIRES = [], DEPS = []\<rparr>)"

definition diamond_runner :: "example TestRunner" where
  "diamond_runner =
     register_all diamond_classes (TestRunner_init 32 48) [Test_C, Test_A, Test_B, Test_D]"

text \<open>The cycle of the specification: \<open>A\<close> requires a property that \<open>B\<close> provides, and \<open>B\<close>
  names \<open>A\<close> in \<^verbatim>\<open>DEPS\<close>. \<open>X\<close> stands apart.\<close>

definition cycle_classes :: "example \<Rightarrow> example test_class" where
  "cycle_classes c =
     (case c of
        Test_A \<Rightarrow> \<lparr>class_name = ''A'', PROVIDES = [], REQUIRES = [''b''], DEPS = []\<rparr>
      | Test_B \<Rightarrow> \<lparr>class_name = ''B'', PROVIDES = [''b''], REQUIRES = [], DEPS = [Test_A]\<rparr>
      | Test_C \<Rightarrow> \<lparr>class_name = ''C'', PROVIDES = [], REQUIRES = [], DEPS = []\<rparr>
      | Test_D \<Rightarrow> \<lparr>class_name = ''D'', PROVIDES = [], REQUIRES = [], DEPS = []\<rparr>
      | Test_X \<Rightarrow> \<lparr>class_name = ''X'', PROVIDES = [], REQUIRES = [], DEPS = []\<rparr>)"

definition cycle_runner :: "example TestRunner" where
  "cycle_runner = register_all cycle_classes (TestRunner_init 32 48) [Test_A, Test_B, Test_X]"

text \<open>The same cycle, where \<open>A\<close> also requires a property that no class provides.\<close>

definition missing_cycle_classes :: "example \<Rightarrow> example test_class" where
  "missing_cycle_classes c =
     (case c of
        Test_A \<Rightarrow> \<lparr>class_name = ''A'', PROVIDES = [], REQUIRES = [''b'', ''ghost''], DEPS = []\<rparr>
      | Test_B \<Rightarrow> \<lparr>class_name = ''B'', PROVIDES = [''b''], REQUIRES = [], DEPS = [Test_A]\<rparr>
      | Test_C \<Rightarrow> \<lparr>class_name = ''C'', PROVIDES = [], REQUIRES = [], DEPS = []\<rparr>
      | Test_D \<Rightarrow> \<lparr>class_name = ''D'', PROVIDES = [], REQUIRES = [], DEPS = []\<rparr>
      | Test_X \<Rightarrow> \<lparr>class_name = ''X'', PROVIDES = [], REQUIRES = [], DEPS = []\<rparr>)"

definition missing_cycle_runner :: "example TestRunner" where
  "missing_cycle_runner =
     register_all missing_cycle_classes (TestRunner_init 32 48) [Test_A, Test_B, Test_X]"

section \<open>Properties\<close>

subsection \<open>Properties of DeviceProperties\<close>

lemma setattr_all_properties:
  "properties (snd (setattr_all dev kvs)) p =
     (case map_of (rev kvs) p of None \<Rightarrow> properties dev p | Some v \<Rightarrow> Some v)"
proof (induction kvs arbitrary: dev)
  case Nil
  then show ?case by simp
next
  case (Cons kv kvs)
  obtain q v where kv: "kv = (q, v)" by (cases kv)
  show ?case
    using Cons.IH [of "snd (DeviceProperties_setattr dev q v)"]
    by (auto simp: kv DeviceProperties_setattr_def map_add_def
        split: prod.splits option.splits)
qed

lemma normal_lookup_None:
  "normal_lookup builtin dev name = None \<longleftrightarrow> name \<notin> set (attribute_names builtin)"
  by (auto simp: normal_lookup_def instance_dict_def attribute_names_def)

lemma normal_lookup_Some:
  assumes "name \<in> set (attribute_names builtin)"
  shows "\<exists>a. normal_lookup builtin dev name = Some a \<and> (\<forall>v. a \<noteq> Stored v)"
  using assms by (auto simp: normal_lookup_def instance_dict_def attribute_names_def)

lemma getattr_property:
  assumes "name \<notin> set (attribute_names builtin)"
  shows "getattr builtin dev name =
           (case properties dev name of
              None \<Rightarrow> Inl (AttributeError name)
            | Some v \<Rightarrow> Inr (Stored v))"
proof -
  have "normal_lookup builtin dev name = None"
    using assms by (simp add: normal_lookup_None)
  then show ?thesis
    by (simp add: getattr_def DeviceProperties_getattr_def split: option.splits)
qed

lemma getattr_attribute:
  assumes "name \<in> set (attribute_names builtin)"
  shows "\<exists>a. getattr builtin dev name = Inr a \<and> (\<forall>v. a \<noteq> Stored v)"
proof -
  from normal_lookup_Some [OF assms, of dev] obtain a where
    "normal_lookup builtin dev name = Some a" and "\<forall>v. a \<noteq> Stored v" by blast
  then show ?thesis by (simp add: getattr_def)
qed

text \<open>
  Claim C8 says that for every property name the later of two values set is the stored
  value, and that reading any name never set is not found. Python calls \<^verbatim>\<open>__getattr__\<close>
  only for a name that normal lookup does not find. After \<^verbatim>\<open>_property_names\<close> is set to 1
  and then to 7 (which warns), reading it gives the list of names that \<^verbatim>\<open>__init__\<close> stored,
  not 7; and reading \<^verbatim>\<open>__doc__\<close>, which was never set, gives the docstring of the class, not
  AttributeError.
\<close>

theorem C8_counterexample:
  "fst (setattr_all (DeviceProperties_init [''dmx_address''])
          [(''_property_names'', 1::int), (''_property_names'', 7)]) =
     [(WARNING, Multiple_sets_of_property ''_property_names'')] \<and>
   getattr python27_names
     (snd (setattr_all (DeviceProperties_init [''dmx_address''])
             [(''_property_names'', 1::int), (''_property_names'', 7)]))
     ''_property_names'' = Inr (Property_names [''dmx_address'']) \<and>
   getattr python27_names (DeviceProperties_init [''dmx_address''] :: int DeviceProperties)
     ''__doc__'' = Inr (Class_member ''__doc__'')"
  by (simp add: DeviceProperties_setattr_def DeviceProperties_init_def getattr_def
      normal_lookup_def instance_dict_def class_dict_def)

text \<open>
  Claim C8, amended. For every store and pair of values, setting a name twice logs the
  anomaly (one warning, at the second set). For every name that normal lookup does not
  find on the object (a name other than \<^verbatim>\<open>_property_names\<close> and \<^verbatim>\<open>_properties\<close>, the members
  of the class and the names of the interpreter) the value read back is the second one;
  and when such a name was never set (on a store made by the constructor and then written
  by any sequence of assignments to other names) reading it raises AttributeError, an
  outcome that is no value at all. For a name that normal lookup finds, reading gives the
  attribute of the object itself, never a value that was set.
\<close>

theorem C8_amended_property_names_keep_later_value:
  fixes dev :: "'v DeviceProperties" and v1 v2 :: 'v
  shows "(case DeviceProperties_setattr dev p v1 of
            (l1, dev1) \<Rightarrow>
              (case DeviceProperties_setattr dev1 p v2 of
                 (l2, dev2) \<Rightarrow>
                   l2 = [(WARNING, Multiple_sets_of_property p)] \<and>
                   (p \<notin> set (attribute_names builtin) \<longrightarrow>
                      getattr builtin dev2 p = Inr (Stored v2)) \<and>
                   (p \<in> set (attribute_names builtin) \<longrightarrow>
                      (\<exists>a. getattr builtin dev2 p = Inr a \<and> (\<forall>v. a \<noteq> Stored v)))))
         \<and> (q \<notin> fst ` set kvs \<and> q \<notin> set (attribute_names builtin) \<longrightarrow>
              getattr builtin
                (snd (setattr_all (DeviceProperties_init names :: 'v DeviceProperties) kvs)) q
                = Inl (AttributeError q)
              \<and> (\<forall>a :: 'v attribute. Inl (AttributeError q) \<noteq> (Inr a :: exn + 'v attribute)))"
proof -
  let ?dev2 = "snd (DeviceProperties_setattr (snd (DeviceProperties_setattr dev p v1)) p v2)"
  have l2: "fst (DeviceProperties_setattr (snd (DeviceProperties_setattr dev p v1)) p v2) =
              [(WARNING, Multiple_sets_of_property p)]"
    by (simp add: DeviceProperties_setattr_def)
  have rd: "getattr builtin ?dev2 p = Inr (Stored v2)" if "p \<notin> set (attribute_names builtin)"
    using getattr_property [OF that, of ?dev2] by (simp add: DeviceProperties_setattr_def)
  have own: "\<exists>a. getattr builtin ?dev2 p = Inr a \<and> (\<forall>v. a \<noteq> Stored v)"
    if "p \<in> set (attribute_names builtin)"
    using that by (rule getattr_attribute)
  have unset: "getattr builtin
                 (snd (setattr_all (DeviceProperties_init names :: 'v DeviceProperties) kvs)) q
               = Inl (AttributeError q)"
    if "q \<notin> fst ` set kvs" and "q \<notin> set (attribute_names builtin)"
  proof -
    have "map_of (rev kvs) q = None"
      using that(1) by (simp add: map_of_eq_None_iff)
    then have "properties
                 (snd (setattr_all (DeviceProperties_init names :: 'v DeviceProperties) kvs)) q
               = None"
      by (simp add: setattr_all_properties DeviceProperties_init_def)
    then show ?thesis
      using getattr_property
        [OF that(2),
         of "snd (setattr_all (DeviceProperties_init names :: 'v DeviceProperties) kvs)"]
      by simp
  qed
  show ?thesis using l2 rd own unset by (simp add: case_prod_beta)
qed

text \<open>
  With the names of CPython 2.7: setting \<^verbatim>\<open>dmx_address\<close> to 1 and then to 7 warns once and
  leaves 7, and \<^verbatim>\<open>label\<close> was never set; setting \<^verbatim>\<open>_properties\<close> twice warns as well, and
  reading it gives no value that was set.
\<close>

theorem C8_amended_witness:
  "''dmx_address'' \<notin> set (attribute_names python27_names) \<and>
   ''label'' \<notin> set (attribute_names python27_names) \<and>
   ''_properties'' \<in> set (attribute_names python27_names) \<and>
   ''label'' \<notin> fst ` set [(''dmx_address'', 1::int), (''dmx_address'', 7)] \<and>
   (case DeviceProperties_setattr (DeviceProperties_init [''dmx_address''])
           ''dmx_address'' (1::int) of
      (l1, dev1) \<Rightarrow>
        (case DeviceProperties_setattr dev1 ''dmx_address'' 7 of
           (l2, dev2) \<Rightarrow>
             l2 = [(WARNING, Multiple_sets_of_property ''dmx_address'')] \<and>
             getattr python27_names dev2 ''dmx_address'' = Inr (Stored 7))) \<and>
   getattr python27_names
     (snd (setattr_all (DeviceProperties_init [''dmx_address''])
             [(''dmx_address'', 1::int), (''dmx_address'', 7)])) ''label''
     = Inl (AttributeError ''label'') \<and>
   (case DeviceProperties_setattr (DeviceProperties_init [''dmx_address''])
           ''_properties'' (1::int) of
      (l1, dev1) \<Rightarrow>
        (case DeviceProperties_setattr dev1 ''_properties'' 7 of
           (l2, dev2) \<Rightarrow>
             l2 = [(WARNING, Multiple_sets_of_property ''_properties'')] \<and>
             (\<exists>a. getattr python27_names dev2 ''_properties'' = Inr a \<and>
                  (\<forall>v. a \<noteq> Stored v))))"
proof -
  have n: "''dmx_address'' \<notin> set (attribute_names python27_names)"
          "''label'' \<notin> set (attribute_names python27_names)"
          "''_properties'' \<in> set (attribute_names python27_names)"
    by (simp_all add: attribute_names_def python27_names_def class_dict_def)
  have k: "''label'' \<notin> fst ` set [(''dmx_address'', 1::int), (''dmx_address'', 7)]"
    by simp
  note a = C8_amended_property_names_keep_later_value
    [where dev = "DeviceProperties_init [''dmx_address'']" and p = "''dmx_address''"
       and ?v1.0 = "1::int" and ?v2.0 = 7 and q = "''label''"
       and kvs = "[(''dmx_address'', 1::int), (''dmx_address'', 7)]"
       and names = "[''dmx_address'']" and builtin = python27_names]
  note b = C8_amended_property_names_keep_later_value
    [where dev = "DeviceProperties_init [''dmx_address'']" and p = "''_properties''"
       and ?v1.0 = "1::int" and ?v2.0 = 7 and q = "''label''"
       and kvs = "[(''dmx_address'', 1::int), (''dmx_address'', 7)]"
       and names = "[''dmx_address'']" and builtin = python27_names]
  from a n k have a1:
    "(case DeviceProperties_setattr (DeviceProperties_init [''dmx_address''])
             ''dmx_address'' (1::int) of
        (l1, dev1) \<Rightarrow>
          (case DeviceProperties_setattr dev1 ''dmx_address'' 7 of
             (l2, dev2) \<Rightarrow>
               l2 = [(WARNING, Multiple_sets_of_property ''dmx_address'')] \<and>
               getattr python27_names dev2 ''dmx_address'' = Inr (Stored 7)))"
    by (simp add: case_prod_beta)
  from a n k have a2:
    "getattr python27_names
       (snd (setattr_all (DeviceProperties_init [''dmx_address''])
               [(''dmx_address'', 1::int), (''dmx_address'', 7)])) ''label''
       = Inl (AttributeError ''label'')"
    by blast
  from b n have b1:
    "(case DeviceProperties_setattr (DeviceProperties_init [''dmx_address''])
             ''_properties'' (1::int) of
        (l1, dev1) \<Rightarrow>
          (case DeviceProperties_setattr dev1 ''_properties'' 7 of
             (l2, dev2) \<Rightarrow>
               l2 = [(WARNING, Multiple_sets_of_property ''_properties'')] \<and>
               (\<exists>a. getattr python27_names dev2 ''_properties'' = Inr a \<and>
                    (\<forall>v. a \<noteq> Stored v))))"
    by (simp add: case_prod_beta)
  show ?thesis using n k a1 a2 b1 by blast
qed

subsection \<open>The queued message fetcher: cycles that keep fetching\<close>

lemma HandleResponse_more:
  "more_remain (queued_message_pid self) (status_message_pid self) (r, u) \<Longrightarrow> HandleResponse self r u = snd (FetchQueuedMessage self)"
  by (auto simp: more_remain_def HandleResponse_def split: option.splits)

lemma HandleResponse_timer:
  "is_timer r \<Longrightarrow> HandleResponse self r u =
     self\<lparr>log := log self @ [(DEBUG, Got_ACK_TIMER (ack_timer r))],
          events := events self @ [ack_timer r]\<rparr>"
  by (simp add: is_timer_def HandleResponse_def wrapper_Reset_def wrapper_AddEvent_def logging_def)

text \<open>One response that keeps the cycle going, taken in the state that awaits it.\<close>

lemma Run_loop_step:
  assumes "awaiting self" and "more_remain (queued_message_pid self) (status_message_pid self) (r, u) \<or> is_timer r"
  shows "Run_loop self ((r, u) # rest) =
           Run_loop (snd (FetchQueuedMessage
                  (self\<lparr>outstanding := 0, log := log self @ timer_log [(r, u)]\<rparr>))) rest"
proof -
  from assms(1) have q: "\<not> quit self" and o: "outstanding self = 1" and e: "events self = []"
    by (auto simp: awaiting_def)
  show ?thesis
  proof (cases "is_timer r")
    case True
    let ?s1 = "(self\<lparr>outstanding := 0\<rparr>)\<lparr>log := log self @ [(DEBUG, Got_ACK_TIMER (ack_timer r))],
                 events := events self @ [ack_timer r]\<rparr>"
    have "Run_loop self ((r, u) # rest) = Run_loop ?s1 rest"
      using q o HandleResponse_timer [OF True, of "self\<lparr>outstanding := 0\<rparr>" u]
      by (subst Run_loop.simps) simp
    also have "\<dots> = Run_loop (snd (FetchQueuedMessage (?s1\<lparr>events := []\<rparr>))) rest"
      using q e by (subst Run_loop.simps) simp
    also have "?s1\<lparr>events := []\<rparr> =
        self\<lparr>outstanding := 0, log := log self @ timer_log [(r, u)]\<rparr>"
      using True e by (intro fetcher.equality) (simp_all add: timer_log_def)
    finally show ?thesis .
  next
    case False
    then have m: "more_remain (queued_message_pid (self\<lparr>outstanding := 0\<rparr>)) (status_message_pid (self\<lparr>outstanding := 0\<rparr>)) (r, u)"
      using assms(2) by (simp add: more_remain_def)
    have "Run_loop self ((r, u) # rest) = Run_loop (snd (FetchQueuedMessage (self\<lparr>outstanding := 0\<rparr>))) rest"
      using q o HandleResponse_more [OF m] by (subst Run_loop.simps) simp
    then show ?thesis using False by (simp add: timer_log_def)
  qed
qed

lemma Run_loop_continuing:
  assumes "\<forall>ru \<in> set rs. more_remain (queued_message_pid self) (status_message_pid self) ru \<or> is_timer (fst ru)"
    and "awaiting self" and "counter self \<le> limit self"
  shows "(nat (limit self - counter self) < length rs \<longrightarrow>
            (\<exists>self'. Run_loop self rs = Returned (self', drop (Suc (nat (limit self - counter self))) rs) \<and>
               counter self' = limit self \<and> limit self' = limit self \<and>
               fetches self' = fetches self + nat (limit self - counter self) \<and>
               quit self' \<and> outstanding self' = 0 \<and> events self' = [] \<and>
               queued_message_pid self' = queued_message_pid self \<and>
               status_message_pid self' = status_message_pid self \<and>
               log self' = log self @ timer_log (take (Suc (nat (limit self - counter self))) rs)
                             @ [(ERROR, Queued_message_hit_loop_limit (limit self))])) \<and>
         (length rs \<le> nat (limit self - counter self) \<longrightarrow>
            (\<exists>self'. Run_loop self rs = Blocked (self', []) \<and>
               counter self' = counter self + int (length rs) \<and>
               fetches self' = fetches self + length rs \<and>
               awaiting self' \<and> log self' = log self @ timer_log rs))"
  using assms
proof (induction rs arbitrary: self)
  case Nil
  then show ?case by (subst Run_loop.simps) (simp add: awaiting_def timer_log_def)
next
  case (Cons ru rs)
  obtain r u where ru: "ru = (r, u)" by (cases ru)
  have c: "more_remain (queued_message_pid self) (status_message_pid self) (r, u) \<or> is_timer r" using Cons.prems(1) ru by auto
  let ?s0 = "self\<lparr>outstanding := 0, log := log self @ timer_log [(r, u)]\<rparr>"
  have step: "Run_loop self (ru # rs) = Run_loop (snd (FetchQueuedMessage ?s0)) rs"
    unfolding ru using Cons.prems(2) c by (rule Run_loop_step)
  show ?case
  proof (cases "counter self = limit self")
    case True
    let ?s1 = "snd (FetchQueuedMessage ?s0)"
    have s1: "?s1 = ?s0\<lparr>log := log ?s0 @ [(ERROR, Queued_message_hit_loop_limit (limit self))], quit := True\<rparr>"
      using True by (simp add: FetchQueuedMessage_def wrapper_Stop_def logging_def)
    have "Run_loop ?s1 rs = Returned (?s1, rs)"
      by (subst Run_loop.simps) (simp add: s1)
    then show ?thesis
      using step True Cons.prems(2) by (simp add: s1 awaiting_def ru)
  next
    case False
    let ?s1 = "snd (FetchQueuedMessage ?s0)"
    have s1: "?s1 = ?s0\<lparr>counter := counter self + 1, outstanding := 1, fetches := fetches self + 1\<rparr>"
      using False by (simp add: FetchQueuedMessage_def api_Get_def)
    have p1: "\<forall>ru \<in> set rs. more_remain (queued_message_pid ?s1) (status_message_pid ?s1) ru \<or> is_timer (fst ru)"
      using Cons.prems(1) by (simp add: s1 more_remain_def)
    have p2: "awaiting ?s1" using Cons.prems(2) by (simp add: s1 awaiting_def)
    have p3: "counter ?s1 \<le> limit ?s1" using Cons.prems(3) False by (simp add: s1)
    have k: "nat (limit self - counter self) = Suc (nat (limit ?s1 - counter ?s1))"
      using Cons.prems(3) False by (simp add: s1)
    have tl: "timer_log (ru # xs) = timer_log [(r, u)] @ timer_log xs" for xs
      by (simp add: timer_log_def ru)
    from Cons.IH [OF p1 p2 p3] show ?thesis
      unfolding step k by (auto simp: s1 tl)
  qed
qed

lemma FetchAllMessages_continuing:
  assumes c: "\<forall>ru \<in> set rs. more_remain (queued_message_pid self) (status_message_pid self) ru \<or> is_timer (fst ru)"
    and i: "idle self" and l: "0 \<le> limit self"
  shows "(nat (limit self) \<le> length rs \<longrightarrow>
            (\<exists>self'. FetchAllMessages self rs = Returned (self', drop (nat (limit self)) rs) \<and>
               limit self' = limit self \<and>
               fetches self' = fetches self + nat (limit self) \<and>
               quit self' \<and> idle self' \<and>
               queued_message_pid self' = queued_message_pid self \<and>
               status_message_pid self' = status_message_pid self \<and>
               log self' = log self @ timer_log (take (nat (limit self)) rs)
                             @ [(ERROR, Queued_message_hit_loop_limit (limit self))])) \<and>
         (length rs < nat (limit self) \<longrightarrow>
            (\<exists>self'. FetchAllMessages self rs = Blocked (self', []) \<and>
               fetches self' = fetches self + length rs + 1 \<and>
               awaiting self' \<and> log self' = log self @ timer_log rs))"
proof (cases "limit self = 0")
  case True
  then show ?thesis
    using i by (simp add: FetchAllMessages_def FetchQueuedMessage_def wrapper_Stop_def
        logging_def idle_def timer_log_def)
next
  case False
  let ?s1 = "self\<lparr>counter := 1, outstanding := 1, fetches := fetches self + 1, quit := False\<rparr>"
  have f: "FetchAllMessages self rs = Run_loop ?s1 rs"
    using False i by (simp add: FetchAllMessages_def FetchQueuedMessage_def api_Get_def
        wrapper_Run_def idle_def)
  have p1: "\<forall>ru \<in> set rs. more_remain (queued_message_pid ?s1) (status_message_pid ?s1) ru \<or> is_timer (fst ru)"
    using c by simp
  have p2: "awaiting ?s1" using i by (simp add: awaiting_def idle_def)
  have p3: "counter ?s1 \<le> limit ?s1" using False l by simp
  have k: "Suc (nat (limit ?s1 - counter ?s1)) = nat (limit self)"
    using False l by simp
  have k2: "nat (limit ?s1 - counter ?s1) < length rs \<longleftrightarrow> nat (limit self) \<le> length rs"
    using False l by auto
  have k3: "length rs \<le> nat (limit ?s1 - counter ?s1) \<longleftrightarrow> length rs < nat (limit self)"
    using False l by auto
  have k4: "fetches ?s1 + nat (limit ?s1 - counter ?s1) = fetches self + nat (limit self)"
    using False l by simp
  from Run_loop_continuing [OF p1 p2 p3] show ?thesis
    unfolding f k k2 k3 k4 by (auto simp: idle_def)
qed

lemma timer_log_more:
  "\<forall>ru \<in> set rs. more_remain qpid spid ru \<Longrightarrow> timer_log rs = []"
  by (auto simp: timer_log_def more_remain_def is_timer_def filter_empty_conv)

text \<open>
  Claim C6. Let every response be a successful one that leaves more messages to fetch,
  and let the limit be a count (not negative). A drain cycle that gets at least \<open>limit\<close>
  such responses issues exactly \<open>limit\<close> fetches, consumes exactly \<open>limit\<close> responses, logs
  the loop limit error and stops the event loop. A cycle that has got fewer than \<open>limit\<close>
  responses so far has issued one fetch more than it got responses, at most \<open>limit\<close>, and
  waits for the next response. No prefix of the stream makes it fetch beyond the limit.
\<close>

theorem C6_more_remain_stream_stops_at_limit:
  assumes "\<forall>ru \<in> set rs. more_remain (queued_message_pid self) (status_message_pid self) ru"
    and "idle self" and "0 \<le> limit self"
  shows "(nat (limit self) \<le> length rs \<longrightarrow>
            (\<exists>self'. FetchAllMessages self rs = Returned (self', drop (nat (limit self)) rs) \<and>
               fetches self' = fetches self + nat (limit self) \<and> quit self' \<and> idle self' \<and>
               log self' = log self @ [(ERROR, Queued_message_hit_loop_limit (limit self))])) \<and>
         (length rs < nat (limit self) \<longrightarrow>
            (\<exists>self'. FetchAllMessages self rs = Blocked (self', []) \<and>
               fetches self' = fetches self + length rs + 1 \<and> awaiting self' \<and>
               log self' = log self))"
proof -
  have c: "\<forall>ru \<in> set rs. more_remain (queued_message_pid self) (status_message_pid self) ru
             \<or> is_timer (fst ru)"
    using assms(1) by blast
  have t1: "timer_log rs = []" using assms(1) by (rule timer_log_more)
  have "\<forall>ru \<in> set (take (nat (limit self)) rs).
          more_remain (queued_message_pid self) (status_message_pid self) ru"
    using assms(1) by (meson in_set_takeD)
  then have t2: "timer_log (take (nat (limit self)) rs) = []" by (rule timer_log_more)
  from FetchAllMessages_continuing [OF c assms(2,3)] show ?thesis
    unfolding t1 t2 by auto
qed

text \<open>
  With the default limit of 25: 30 responses make 25 fetches and leave 5 responses
  unread; after 3 responses the fourth fetch is outstanding.
\<close>

theorem C6_witness:
  "more_remain 32 48 (more_response, None) \<and> idle (QueuedMessageFetcher_init 25 32 48) \<and>
   FetchAllMessages (QueuedMessageFetcher_init 25 32 48) (replicate 30 (more_response, None)) =
     Returned (\<lparr>limit = 25, counter = 25, queued_message_pid = 32, status_message_pid = 48,
                quit = True, events = [], outstanding = 0, fetches = 25,
                log = [(ERROR, Queued_message_hit_loop_limit 25)]\<rparr>,
               replicate 5 (more_response, None)) \<and>
   FetchAllMessages (QueuedMessageFetcher_init 25 32 48) (replicate 3 (more_response, None)) =
     Blocked (\<lparr>limit = 25, counter = 4, queued_message_pid = 32, status_message_pid = 48,
               quit = False, events = [], outstanding = 1, fetches = 4, log = []\<rparr>, [])"
proof -
  let ?f = "QueuedMessageFetcher_init 25 32 48"
  have m: "more_remain 32 48 (more_response, None)"
    by (simp add: more_remain_def more_response_def)
  have i: "idle ?f" by (simp add: idle_def QueuedMessageFetcher_init_def)
  have l: "0 \<le> limit ?f" by (simp add: QueuedMessageFetcher_init_def)
  have a: "\<forall>ru \<in> set (replicate n (more_response, None)).
             more_remain (queued_message_pid ?f) (status_message_pid ?f) ru" for n
    using m by (simp add: QueuedMessageFetcher_init_def)
  from C6_more_remain_stream_stops_at_limit [OF a [of 30] i l]
  obtain s1 where s1: "FetchAllMessages ?f (replicate 30 (more_response, None)) =
      Returned (s1, drop (nat (limit ?f)) (replicate 30 (more_response, None)))"
    by (auto simp: QueuedMessageFetcher_init_def)
  from C6_more_remain_stream_stops_at_limit [OF a [of 3] i l]
  obtain s2 where s2: "FetchAllMessages ?f (replicate 3 (more_response, None)) = Blocked (s2, [])"
    by (auto simp: QueuedMessageFetcher_init_def)
  have e1: "FetchAllMessages ?f (replicate 30 (more_response, None)) =
     Returned (\<lparr>limit = 25, counter = 25, queued_message_pid = 32, status_message_pid = 48,
                quit = True, events = [], outstanding = 0, fetches = 25,
                log = [(ERROR, Queued_message_hit_loop_limit 25)]\<rparr>,
               replicate 5 (more_response, None))"
    by code_simp
  have e2: "FetchAllMessages ?f (replicate 3 (more_response, None)) =
     Blocked (\<lparr>limit = 25, counter = 4, queued_message_pid = 32, status_message_pid = 48,
               quit = False, events = [], outstanding = 1, fetches = 4, log = []\<rparr>, [])"
    by code_simp
  show ?thesis using m i e1 e2 s1 s2 by simp
qed

text \<open>
  Claim C4 says that a drain cycle of timer responses only never trips the loop limit.
  With the default limit of 25, the 25th timer response does: every scheduled
  \<^verbatim>\<open>_FetchQueuedMessage\<close> that sends a request increments the counter.
\<close>

theorem C4_counterexample:
  "FetchAllMessages (QueuedMessageFetcher_init 25 32 48) (replicate 25 (timer_response 50, None)) =
     Returned (\<lparr>limit = 25, counter = 25, queued_message_pid = 32, status_message_pid = 48,
                quit = True, events = [], outstanding = 0, fetches = 25,
                log = replicate 25 (DEBUG, Got_ACK_TIMER 50)
                        @ [(ERROR, Queued_message_hit_loop_limit 25)]\<rparr>, [])"
  by code_simp

text \<open>
  Claim C4, amended. Handling a timer response logs it and schedules the delayed call of
  \<^verbatim>\<open>_FetchQueuedMessage\<close>; the handler leaves the counter (and everything else) as it was.
  The call it schedules counts as a fetch like any other: a drain cycle of timer responses
  only that gets at least \<open>limit\<close> of them issues exactly \<open>limit\<close> fetches, then logs the loop
  limit error and stops the event loop; with fewer than \<open>limit\<close> timer responses it has
  logged no error and waits for the next response.
\<close>

theorem C4_amended_timer_fetches_count:
  assumes "\<forall>ru \<in> set rs. is_timer (fst ru)" and "idle self" and "0 \<le> limit self"
  shows "(\<forall>r u s. is_timer r \<longrightarrow>
            HandleResponse s r u =
              s\<lparr>log := log s @ [(DEBUG, Got_ACK_TIMER (ack_timer r))],
                events := events s @ [ack_timer r]\<rparr>) \<and>
         (nat (limit self) \<le> length rs \<longrightarrow>
            (\<exists>self'. FetchAllMessages self rs = Returned (self', drop (nat (limit self)) rs) \<and>
               fetches self' = fetches self + nat (limit self) \<and> quit self' \<and>
               log self' = log self @ timer_log (take (nat (limit self)) rs)
                             @ [(ERROR, Queued_message_hit_loop_limit (limit self))])) \<and>
         (length rs < nat (limit self) \<longrightarrow>
            (\<exists>self'. FetchAllMessages self rs = Blocked (self', []) \<and>
               fetches self' = fetches self + length rs + 1 \<and> awaiting self' \<and>
               log self' = log self @ timer_log rs))"
proof -
  have c: "\<forall>ru \<in> set rs. more_remain (queued_message_pid self) (status_message_pid self) ru
             \<or> is_timer (fst ru)"
    using assms(1) by blast
  from FetchAllMessages_continuing [OF c assms(2,3)] HandleResponse_timer show ?thesis
    by blast
qed

text \<open>
  One timer response of 50 ms leaves the counter at 0 and schedules one callback; two of
  them in a cycle leave the third fetch outstanding.
\<close>

theorem C4_amended_witness:
  "is_timer (timer_response 50) \<and> idle (QueuedMessageFetcher_init 25 32 48) \<and>
   counter (HandleResponse (QueuedMessageFetcher_init 25 32 48) (timer_response 50) None) = 0 \<and>
   events (HandleResponse (QueuedMessageFetcher_init 25 32 48) (timer_response 50) None) = [50] \<and>
   FetchAllMessages (QueuedMessageFetcher_init 25 32 48) (replicate 2 (timer_response 50, None)) =
     Blocked (\<lparr>limit = 25, counter = 3, queued_message_pid = 32, status_message_pid = 48,
               quit = False, events = [], outstanding = 1, fetches = 3,
               log = [(DEBUG, Got_ACK_TIMER 50), (DEBUG, Got_ACK_TIMER 50)]\<rparr>, [])"
proof -
  let ?f = "QueuedMessageFetcher_init 25 32 48"
  have t: "is_timer (timer_response 50)"
    by (simp add: is_timer_def timer_response_def)
  have i: "idle ?f" by (simp add: idle_def QueuedMessageFetcher_init_def)
  have l: "0 \<le> limit ?f" by (simp add: QueuedMessageFetcher_init_def)
  have a: "\<forall>ru \<in> set (replicate 2 (timer_response 50, None)). is_timer (fst ru)"
    using t by simp
  note inst = C4_amended_timer_fetches_count [OF a i l]
  from inst t have h: "HandleResponse ?f (timer_response 50) None =
      ?f\<lparr>log := log ?f @ [(DEBUG, Got_ACK_TIMER (ack_timer (timer_response 50)))],
         events := events ?f @ [ack_timer (timer_response 50)]\<rparr>"
    by blast
  have e: "FetchAllMessages ?f (replicate 2 (timer_response 50, None)) =
     Blocked (\<lparr>limit = 25, counter = 3, queued_message_pid = 32, status_message_pid = 48,
               quit = False, events = [], outstanding = 1, fetches = 3,
               log = [(DEBUG, Got_ACK_TIMER 50), (DEBUG, Got_ACK_TIMER 50)]\<rparr>, [])"
    by code_simp
  show ?thesis using t i e h
    by (simp add: QueuedMessageFetcher_init_def timer_response_def)
qed

subsection \<open>The topological sort: invariant of the while loop\<close>

lemma map_of_dict_discard:
  "map_of (dict_discard dd test x) t =
     (if t = test then map_option (\<lambda>d. d - {x}) (map_of dd t) else map_of dd t)"
  by (induction dd) (auto simp: dict_discard_def)

lemma keys_dict_discard: "map fst (dict_discard dd test x) = map fst dd"
  by (induction dd) (auto simp: dict_discard_def)

lemma discard_loop_result:
  assumes "distinct ts" and "set ts \<subseteq> fst ` set dd" and "set ts \<inter> set nd = {}"
  shows "\<exists>dd'. discard_loop cur ts dd nd rl =
           Inr (dd', nd @ filter (\<lambda>t. deps_of dd t - {cur} = {}) ts,
                rl @ filter (\<lambda>t. deps_of dd t - {cur} = {}) ts)
         \<and> map fst dd' = map fst dd
         \<and> (\<forall>t. map_of dd' t =
               (if t \<in> set ts then Some (deps_of dd t - {cur}) else map_of dd t))"
  using assms
proof (induction ts arbitrary: dd nd rl)
  case Nil
  then show ?case by simp
next
  case (Cons t ts)
  from Cons.prems obtain d where d: "map_of dd t = Some d"
    by (metis domD dom_map_of_conv_image_fst list.set_intros(1) subsetD)
  let ?dd1 = "dict_discard dd t cur"
  have k1: "map fst ?dd1 = map fst dd" by (rule keys_dict_discard)
  have same: "deps_of ?dd1 u = deps_of dd u" if "u \<in> set ts" for u
    using that Cons.prems(1) by (auto simp: deps_of_def map_of_dict_discard)
  have filt: "filter (\<lambda>u. deps_of ?dd1 u - {cur} = {}) ts = filter (\<lambda>u. deps_of dd u - {cur} = {}) ts"
    using same by (auto intro: filter_cong)
  have sub: "set ts \<subseteq> fst ` set ?dd1"
    using Cons.prems(2) k1 by (metis list.set_map set_subset_Cons subset_trans)
  have dts: "distinct ts" using Cons.prems(1) by simp
  show ?case
  proof (cases "d - {cur} = {}")
    case True
    have disj: "set ts \<inter> set (set_add nd t) = {}"
      using Cons.prems(1,3) by (auto simp: set_add_def)
    have sa: "set_add nd t = nd @ [t]"
      using Cons.prems(3) by (auto simp: set_add_def)
    from Cons.IH [OF dts sub disj, of "rl @ [t]"] obtain dd' where
      r: "discard_loop cur ts ?dd1 (set_add nd t) (rl @ [t]) =
            Inr (dd', set_add nd t @ filter (\<lambda>u. deps_of ?dd1 u - {cur} = {}) ts,
                 (rl @ [t]) @ filter (\<lambda>u. deps_of ?dd1 u - {cur} = {}) ts)"
      and k: "map fst dd' = map fst ?dd1"
      and m: "\<forall>u. map_of dd' u = (if u \<in> set ts then Some (deps_of ?dd1 u - {cur}) else map_of ?dd1 u)"
      by blast
    have "discard_loop cur (t # ts) dd nd rl =
            Inr (dd', nd @ filter (\<lambda>u. deps_of dd u - {cur} = {}) (t # ts),
                 rl @ filter (\<lambda>u. deps_of dd u - {cur} = {}) (t # ts))"
      using True d r filt sa by (simp add: dict_get_def deps_of_def)
    moreover have "\<forall>u. map_of dd' u =
        (if u \<in> set (t # ts) then Some (deps_of dd u - {cur}) else map_of dd u)"
      using m same d Cons.prems(1) by (auto simp: map_of_dict_discard deps_of_def)
    ultimately show ?thesis using k k1 by auto
  next
    case False
    have disj: "set ts \<inter> set nd = {}"
      using Cons.prems(3) by auto
    from Cons.IH [OF dts sub disj, of rl] obtain dd' where
      r: "discard_loop cur ts ?dd1 nd rl =
            Inr (dd', nd @ filter (\<lambda>u. deps_of ?dd1 u - {cur} = {}) ts,
                 rl @ filter (\<lambda>u. deps_of ?dd1 u - {cur} = {}) ts)"
      and k: "map fst dd' = map fst ?dd1"
      and m: "\<forall>u. map_of dd' u = (if u \<in> set ts then Some (deps_of ?dd1 u - {cur}) else map_of ?dd1 u)"
      by blast
    have "discard_loop cur (t # ts) dd nd rl =
            Inr (dd', nd @ filter (\<lambda>u. deps_of dd u - {cur} = {}) (t # ts),
                 rl @ filter (\<lambda>u. deps_of dd u - {cur} = {}) (t # ts))"
      using False d r filt by (simp add: dict_get_def deps_of_def)
    moreover have "\<forall>u. map_of dd' u =
        (if u \<in> set (t # ts) then Some (deps_of dd u - {cur}) else map_of dd u)"
      using m same d Cons.prems(1) by (auto simp: map_of_dict_discard deps_of_def)
    ultimately show ?thesis using k k1 by auto
  qed
qed

lemma remove_loop_result:
  "distinct rem \<Longrightarrow> set rl \<subseteq> set rem \<Longrightarrow> distinct rl \<Longrightarrow>
     remove_loop rem rl = Inr (filter (\<lambda>x. x \<notin> set rl) rem)"
proof (induction rl arbitrary: rem)
  case Nil
  then show ?case by simp
next
  case (Cons x rl)
  have r1: "remove1 x rem = filter (\<lambda>y. y \<noteq> x) rem"
    using Cons.prems(1) by (simp add: distinct_remove1_removeAll removeAll_filter_not_eq) (metis)
  have "remove_loop (remove1 x rem) rl = Inr (filter (\<lambda>y. y \<notin> set rl) (remove1 x rem))"
    using Cons.prems by (intro Cons.IH) auto
  then show ?case
    using Cons.prems r1 by (auto simp: list_remove_def intro: filter_cong)
qed

lemma ordered_snoc:
  "ordered dd0 tests \<Longrightarrow> deps_of dd0 x \<subseteq> set tests \<Longrightarrow> ordered dd0 (tests @ [x])"
  unfolding ordered_def
  by (auto simp: nth_append less_Suc_eq)

lemma set_pop_result:
  "s \<noteq> [] \<Longrightarrow> distinct s \<Longrightarrow> set_pop i s = (x, s') \<Longrightarrow>
     x \<in> set s \<and> set s' = set s - {x} \<and> distinct s'"
  by (auto simp: set_pop_def Let_def distinct_removeAll)

lemma loop_inv_step:
  assumes inv: "loop_inv dd0 dd rem nd tests" and ne: "nd \<noteq> []"
    and pop: "set_pop i nd = (cur, nd1)"
  shows "\<exists>dd2 nd2 rl rem2.
           discard_loop cur rem dd nd1 [] = Inr (dd2, nd2, rl) \<and>
           remove_loop rem rl = Inr rem2 \<and>
           loop_inv dd0 dd2 rem2 nd2 (tests @ [cur])"
proof -
  let ?P = "\<lambda>t. deps_of dd t - {cur} = {}"
  from inv have keys: "map fst dd = map fst dd0"
    and dist: "distinct (tests @ nd @ rem)"
    and un: "set tests \<union> set nd \<union> set rem = fst ` set dd0"
    and remd: "\<forall>t \<in> set rem. map_of dd t = Some (deps_of dd0 t - set tests) \<and> deps_of dd0 t - set tests \<noteq> {}"
    and ndd: "\<forall>t \<in> set nd. deps_of dd0 t \<subseteq> set tests"
    and ord: "ordered dd0 tests"
    by (auto simp: loop_inv_def)
  from dist have dnd: "distinct nd" by simp
  from set_pop_result [OF ne dnd pop] have cur: "cur \<in> set nd"
    and nd1: "set nd1 = set nd - {cur}" and dnd1: "distinct nd1" by auto
  have fstdd: "fst ` set dd = fst ` set dd0"
    using keys by (metis list.set_map)
  have a1: "distinct rem" using dist by simp
  have a2: "set rem \<subseteq> fst ` set dd" using un fstdd by auto
  have a3: "set rem \<inter> set nd1 = {}" using dist nd1 by auto
  from discard_loop_result [OF a1 a2 a3, of cur "[]"] obtain dd2 where
    dl: "discard_loop cur rem dd nd1 [] = Inr (dd2, nd1 @ filter ?P rem, filter ?P rem)"
    and k2: "map fst dd2 = map fst dd"
    and m2: "\<forall>t. map_of dd2 t = (if t \<in> set rem then Some (deps_of dd t - {cur}) else map_of dd t)"
    by auto
  have rl: "remove_loop rem (filter ?P rem) = Inr (filter (\<lambda>x. x \<notin> set (filter ?P rem)) rem)"
    using a1 by (intro remove_loop_result) auto
  let ?rem2 = "filter (\<lambda>x. x \<notin> set (filter ?P rem)) rem"
  have rem2: "set ?rem2 = {t \<in> set rem. \<not> ?P t}" by auto
  have dd_rem: "deps_of dd t = deps_of dd0 t - set tests" if "t \<in> set rem" for t
    using remd that by (simp add: deps_of_def)
  have "loop_inv dd0 dd2 ?rem2 (nd1 @ filter ?P rem) (tests @ [cur])"
    unfolding loop_inv_def
  proof (intro conjI)
    show "map fst dd2 = map fst dd0" using k2 keys by simp
    show "distinct ((tests @ [cur]) @ (nd1 @ filter ?P rem) @ ?rem2)"
      using dist cur nd1 dnd1 by auto
    show "set (tests @ [cur]) \<union> set (nd1 @ filter ?P rem) \<union> set ?rem2 = fst ` set dd0"
      using un cur nd1 by auto
    show "\<forall>t\<in>set ?rem2. map_of dd2 t = Some (deps_of dd0 t - set (tests @ [cur])) \<and>
            deps_of dd0 t - set (tests @ [cur]) \<noteq> {}"
    proof
      fix t assume t: "t \<in> set ?rem2"
      then have tr: "t \<in> set rem" and np: "\<not> ?P t" by auto
      have e: "deps_of dd0 t - set (tests @ [cur]) = deps_of dd t - {cur}"
        using dd_rem [OF tr] by auto
      show "map_of dd2 t = Some (deps_of dd0 t - set (tests @ [cur])) \<and>
            deps_of dd0 t - set (tests @ [cur]) \<noteq> {}"
        using m2 tr np e by simp
    qed
    show "\<forall>t\<in>set (nd1 @ filter ?P rem). deps_of dd0 t \<subseteq> set (tests @ [cur])"
    proof
      fix t assume "t \<in> set (nd1 @ filter ?P rem)"
      then consider "t \<in> set nd" | "t \<in> set rem" "?P t" using nd1 by auto
      then show "deps_of dd0 t \<subseteq> set (tests @ [cur])"
      proof cases
        case 1
        then show ?thesis using ndd by auto
      next
        case 2
        then show ?thesis using dd_rem [of t] by auto
      qed
    qed
    show "ordered dd0 (tests @ [cur])"
      using ord ndd cur by (intro ordered_snoc) auto
  qed
  then show ?thesis using dl rl by blast
qed

lemma while_loop_result:
  "loop_inv dd0 dd rem nd tests \<Longrightarrow>
     \<exists>out rem' dd'. while_loop pick k dd rem nd tests = Inr (out, rem') \<and>
       loop_inv dd0 dd' rem' [] out"
proof (induction pick k dd rem nd tests rule: while_loop.induct)
  case (1 pick k dd rem nd tests)
  show ?case
  proof (cases "nd = []")
    case True
    then show ?thesis using "1.prems" by (subst while_loop.simps) auto
  next
    case False
    obtain cur nd1 where pop: "set_pop (pick k) nd = (cur, nd1)"
      by (cases "set_pop (pick k) nd")
    from loop_inv_step [OF "1.prems" False pop] obtain dd2 nd2 rl rem2 where
      dl: "discard_loop cur rem dd nd1 [] = Inr (dd2, nd2, rl)"
      and rl: "remove_loop rem rl = Inr rem2"
      and inv2: "loop_inv dd0 dd2 rem2 nd2 (tests @ [cur])" by blast
    from "1.IH" [OF False pop [symmetric] dl refl refl rl inv2]
    obtain out rem' dd' where
      "while_loop pick (Suc k) dd2 rem2 nd2 (tests @ [cur]) = Inr (out, rem')"
      "loop_inv dd0 dd' rem' [] out" by blast
    then show ?thesis
      using False pop dl rl by (subst while_loop.simps) auto
  qed
qed

lemma fold_set_add_distinct:
  "distinct xs \<Longrightarrow> set xs \<inter> set acc = {} \<Longrightarrow> fold (\<lambda>x s. set_add s x) xs acc = acc @ xs"
  by (induction xs arbitrary: acc) (auto simp: set_add_def)

lemma deps_of_distinct:
  "distinct (map fst dd) \<Longrightarrow> (t, ds) \<in> set dd \<Longrightarrow> deps_of dd t = ds"
  by (simp add: deps_of_def)

lemma loop_inv_initial:
  assumes "distinct (map fst dd)"
  shows "loop_inv dd dd (map fst (filter (\<lambda>(test, deps). deps \<noteq> {}) dd))
           (fold (\<lambda>test s. set_add s test) (map fst (filter (\<lambda>(test, deps). deps = {}) dd)) []) []"
proof -
  let ?rem = "map fst (filter (\<lambda>(test, deps). deps \<noteq> {}) dd)"
  let ?nd = "map fst (filter (\<lambda>(test, deps). deps = {}) dd)"
  have dn: "distinct ?nd" and dr: "distinct ?rem"
    using assms by (simp_all add: distinct_map_filter)
  have nd: "fold (\<lambda>test s. set_add s test) ?nd [] = ?nd"
    using fold_set_add_distinct [OF dn, of "[]"] by simp
  have srem: "set ?rem = {t. \<exists>ds. (t, ds) \<in> set dd \<and> ds \<noteq> {}}" by force
  have snd: "set ?nd = {t. (t, {}) \<in> set dd}" by force
  have disj: "set ?nd \<inter> set ?rem = {}"
  proof (rule ccontr)
    assume "set ?nd \<inter> set ?rem \<noteq> {}"
    then obtain t ds where "(t, {}) \<in> set dd" "(t, ds) \<in> set dd" "ds \<noteq> {}"
      unfolding srem snd by blast
    then show False using deps_of_distinct [OF assms] by metis
  qed
  have un: "set ?nd \<union> set ?rem = fst ` set dd"
    unfolding srem snd by force
  have r: "\<forall>t\<in>set ?rem. map_of dd t = Some (deps_of dd t - set []) \<and> deps_of dd t - set [] \<noteq> {}"
    unfolding srem using assms by (auto simp: deps_of_def)
  have n: "\<forall>t\<in>set ?nd. deps_of dd t \<subseteq> set []"
    unfolding snd using assms by (auto simp: deps_of_def)
  show ?thesis
    unfolding loop_inv_def nd
    using dn dr disj un r n by (auto simp: ordered_def)
qed

lemma TopologicalSort_loop_result:
  assumes "distinct (map fst dd)"
  shows "\<exists>tests remaining.
           TopologicalSort_loop pick dd = Inr (tests, remaining) \<and>
           TopologicalSort pick dd = Inr tests \<and>
           distinct (tests @ remaining) \<and>
           set tests \<union> set remaining = fst ` set dd \<and>
           (\<forall>t \<in> set remaining. deps_of dd t - set tests \<noteq> {}) \<and>
           ordered dd tests"
proof -
  from while_loop_result [OF loop_inv_initial [OF assms], of pick 0]
  obtain out rem' dd' where
    w: "TopologicalSort_loop pick dd = Inr (out, rem')" and inv: "loop_inv dd dd' rem' [] out"
    unfolding TopologicalSort_loop_def by blast
  have "TopologicalSort pick dd = Inr out"
    using w by (simp add: TopologicalSort_def)
  then show ?thesis
    using w inv unfolding loop_inv_def by auto
qed

lemma acyclic_has_sink:
  assumes "finite S" and "S \<noteq> {}" and "acyclic R"
  shows "\<exists>z \<in> S. \<forall>y. (z, y) \<in> R \<longrightarrow> y \<notin> S"
proof -
  let ?R = "(R \<inter> S \<times> S)\<inverse>"
  have "finite ?R" using assms(1) by simp
  moreover have "acyclic ?R"
    using assms(3) by (meson acyclic_converse acyclic_subset inf_le1)
  ultimately have "wf ?R" by (rule finite_acyclic_wf)
  then obtain z where "z \<in> S" and "\<And>y. (y, z) \<in> ?R \<Longrightarrow> y \<notin> S"
    using assms(2) by (metis ex_in_conv wfE_min)
  then show ?thesis by blast
qed

lemma ordered_precedes:
  assumes "ordered dd tests" and "distinct tests" and "t \<in> set tests" and "d \<in> deps_of dd t"
  shows "precedes tests d t"
proof -
  from assms(3) obtain i where i: "i < length tests" "tests ! i = t"
    by (auto simp: in_set_conv_nth)
  have "takeWhile (\<lambda>x. x \<noteq> t) tests = take i tests"
    using i assms(2) by (intro takeWhile_eq_take_P_nth) (auto simp: nth_eq_iff_index_eq)
  then show ?thesis
    using assms(1,3,4) i unfolding ordered_def precedes_def by auto
qed

lemma TopologicalSort_complete:
  assumes "resolved_graph dd"
  shows "\<exists>tests. TopologicalSort pick dd = Inr tests \<and> distinct tests \<and>
           set tests = fst ` set dd \<and> ordered dd tests"
proof -
  from assms have dist: "distinct (map fst dd)"
    and closed: "\<forall>(t, ds) \<in> set dd. ds \<subseteq> fst ` set dd"
    and acyc: "acyclic (dep_rel dd)"
    by (auto simp: resolved_graph_def)
  from TopologicalSort_loop_result [OF dist, of pick] obtain tests remaining where
    r: "TopologicalSort pick dd = Inr tests" and d: "distinct (tests @ remaining)"
    and u: "set tests \<union> set remaining = fst ` set dd"
    and n: "\<forall>t \<in> set remaining. deps_of dd t - set tests \<noteq> {}"
    and o: "ordered dd tests" by blast
  have "set remaining = {}"
  proof (rule ccontr)
    assume ne: "set remaining \<noteq> {}"
    from acyclic_has_sink [OF _ ne acyc] obtain z where
      z: "z \<in> set remaining" and sink: "\<forall>y. (z, y) \<in> dep_rel dd \<longrightarrow> y \<notin> set remaining"
      by auto
    from n z obtain y where y: "y \<in> deps_of dd z" "y \<notin> set tests" by auto
    from z u obtain ds where ds: "(z, ds) \<in> set dd" by force
    then have "deps_of dd z = ds" using dist by (rule deps_of_distinct [rotated])
    then have "(z, y) \<in> dep_rel dd" and "y \<in> fst ` set dd"
      using y ds closed by (auto simp: dep_rel_def)
    then show False using sink y u by auto
  qed
  then show ?thesis using r d u o by auto
qed

text \<open>
  Claim C1. For every resolved acyclic dependency graph (a dictionary with distinct keys
  whose dependency sets hold keys of the dictionary only, and no cycle) and every order in
  which \<^verbatim>\<open>set.pop()\<close> yields the ready tests, the topological sort returns a list that
  holds every instance exactly once and in which every dependency of an instance stands
  strictly before that instance.
\<close>

theorem C1_dependencies_first:
  assumes "resolved_graph deps_dict"
  shows "\<exists>tests. TopologicalSort pick deps_dict = Inr tests \<and>
           distinct tests \<and> set tests = fst ` set deps_dict \<and>
           (\<forall>(t, ds) \<in> set deps_dict. \<forall>d \<in> ds. precedes tests d t)"
proof -
  from TopologicalSort_complete [OF assms, of pick] obtain tests where
    r: "TopologicalSort pick deps_dict = Inr tests" and d: "distinct tests"
    and s: "set tests = fst ` set deps_dict" and o: "ordered deps_dict tests" by blast
  have dist: "distinct (map fst deps_dict)" using assms by (simp add: resolved_graph_def)
  have "precedes tests d t" if "(t, ds) \<in> set deps_dict" "d \<in> ds" for t ds d
  proof -
    have "t \<in> set tests" using that s by force
    moreover have "d \<in> deps_of deps_dict t"
      using deps_of_distinct [OF dist that(1)] that(2) by simp
    ultimately show ?thesis using ordered_precedes [OF o d] by blast
  qed
  then show ?thesis using r d s by blast
qed

lemma diamond_acyclic:
  "acyclic (dep_rel [(0::nat, {1, 2}), (1, {3}), (2, {3}), (3, {})])"
  by (rule acyclicI_order [where f = "\<lambda>x. 4 - x"]) (auto simp: dep_rel_def)

text \<open>
  The diamond \<open>0 \<rightarrow> {1, 2} \<rightarrow> 3\<close> is such a graph; with the pop order \<open>\<lambda>k. 1\<close> the sort
  returns \<open>[3, 2, 1, 0]\<close>.
\<close>

theorem C1_witness:
  "resolved_graph [(0::nat, {1, 2}), (1, {3}), (2, {3}), (3, {})] \<and>
   TopologicalSort (\<lambda>k. 1) [(0::nat, {1, 2}), (1, {3}), (2, {3}), (3, {})] = Inr [3, 2, 1, 0] \<and>
   precedes [3, 2, 1, 0::nat] 3 1 \<and> precedes [3, 2, 1, 0::nat] 3 2 \<and>
   precedes [3, 2, 1, 0::nat] 1 0 \<and> precedes [3, 2, 1, 0::nat] 2 0"
proof -
  have g: "resolved_graph [(0::nat, {1, 2}), (1, {3}), (2, {3}), (3, {})]"
    using diamond_acyclic by (simp add: resolved_graph_def)
  have r: "TopologicalSort (\<lambda>k. 1) [(0::nat, {1, 2}), (1, {3}), (2, {3}), (3, {})] = Inr [3, 2, 1, 0]"
    by code_simp
  from C1_dependencies_first [OF g, of "\<lambda>k. 1"] r g show ?thesis
    by auto
qed

text \<open>
  Claim C5 says that the sort fails loudly when the ready set empties while instances
  with dependencies remain. It does not: on the two-cycle \<open>0 \<rightarrow> 1 \<rightarrow> 0\<close> the ready set is
  empty from the start, and the sort returns the empty list, with both instances still in
  \<^verbatim>\<open>remaining_tests\<close>.
\<close>

theorem C5_counterexample:
  "TopologicalSort_loop (\<lambda>k. 0) [(0::nat, {1}), (1, {0})] = Inr ([], [0, 1]) \<and>
   TopologicalSort (\<lambda>k. 0) [(0::nat, {1}), (1, {0})] = Inr []"
  by code_simp

text \<open>
  Claim C5, amended. On every dictionary the sort returns normally. The returned list has
  no instance twice, and every instance in it has all its dependencies before it in the
  list. When the ready set empties, the instances left in \<^verbatim>\<open>remaining_tests\<close> are exactly
  the keys that are not in the returned list, and each of them still has a dependency
  that was never scheduled: they are left out of the result, and nothing is raised. So a
  key is scheduled if and only if all its dependencies are.
\<close>

theorem C5_amended_returns_without_unscheduled:
  assumes "distinct (map fst deps_dict)"
  shows "\<exists>tests remaining.
           TopologicalSort_loop pick deps_dict = Inr (tests, remaining) \<and>
           TopologicalSort pick deps_dict = Inr tests \<and>
           distinct (tests @ remaining) \<and>
           set remaining = fst ` set deps_dict - set tests \<and>
           set tests \<subseteq> fst ` set deps_dict \<and>
           ordered deps_dict tests \<and>
           (\<forall>t \<in> set remaining. deps_of deps_dict t - set tests \<noteq> {}) \<and>
           (\<forall>t \<in> fst ` set deps_dict.
              t \<in> set tests \<longleftrightarrow> deps_of deps_dict t \<subseteq> set tests)"
proof -
  from TopologicalSort_loop_result [OF assms, of pick] obtain tests remaining where
    r: "TopologicalSort_loop pick deps_dict = Inr (tests, remaining)"
       "TopologicalSort pick deps_dict = Inr tests"
    and d: "distinct (tests @ remaining)"
    and u: "set tests \<union> set remaining = fst ` set deps_dict"
    and n: "\<forall>t \<in> set remaining. deps_of deps_dict t - set tests \<noteq> {}"
    and o: "ordered deps_dict tests" by blast
  have rem: "set remaining = fst ` set deps_dict - set tests"
    using d u by auto
  have sub: "set tests \<subseteq> fst ` set deps_dict" using u by blast
  have closed: "deps_of deps_dict t \<subseteq> set tests" if "t \<in> set tests" for t
  proof -
    from that obtain i where i: "i < length tests" "tests ! i = t"
      by (auto simp: in_set_conv_nth)
    with o have "deps_of deps_dict t \<subseteq> set (take i tests)"
      unfolding ordered_def by blast
    then show ?thesis using set_take_subset [of i tests] by blast
  qed
  have iff: "\<forall>t \<in> fst ` set deps_dict.
               t \<in> set tests \<longleftrightarrow> deps_of deps_dict t \<subseteq> set tests"
  proof
    fix t assume t: "t \<in> fst ` set deps_dict"
    show "t \<in> set tests \<longleftrightarrow> deps_of deps_dict t \<subseteq> set tests"
    proof
      assume "t \<in> set tests" then show "deps_of deps_dict t \<subseteq> set tests" by (rule closed)
    next
      assume c: "deps_of deps_dict t \<subseteq> set tests"
      show "t \<in> set tests"
      proof (rule ccontr)
        assume "t \<notin> set tests"
        with t rem have "t \<in> set remaining" by blast
        with n have "deps_of deps_dict t - set tests \<noteq> {}" by blast
        with c show False by blast
      qed
    qed
  qed
  show ?thesis
    using r d rem sub o n iff
    by (intro exI [of _ tests] exI [of _ remaining]) simp
qed

text \<open>
  On \<open>0 \<rightarrow> 1 \<rightarrow> 0\<close> with an independent instance \<open>2\<close> and an instance \<open>3\<close> that depends on
  \<open>0\<close> and \<open>2\<close>, the sort returns \<open>[2]\<close> and leaves \<open>0\<close>, \<open>1\<close> and \<open>3\<close> out.
\<close>

theorem C5_amended_witness:
  "distinct (map fst [(0::nat, {1::nat}), (1, {0}), (2, {}), (3, {0, 2})]) \<and>
   TopologicalSort_loop (\<lambda>k. 0) [(0::nat, {1::nat}), (1, {0}), (2, {}), (3, {0, 2})] =
     Inr ([2], [0, 1, 3]) \<and>
   TopologicalSort (\<lambda>k. 0) [(0::nat, {1::nat}), (1, {0}), (2, {}), (3, {0, 2})] =
     Inr [2] \<and>
   set [0::nat, 1, 3] =
     fst ` set [(0::nat, {1::nat}), (1, {0}), (2, {}), (3, {0, 2})] - set [2] \<and>
   ordered [(0::nat, {1::nat}), (1, {0}), (2, {}), (3, {0, 2})] [2] \<and>
   deps_of [(0::nat, {1::nat}), (1, {0}), (2, {}), (3, {0, 2})] 0 - set [2] \<noteq> {} \<and>
   deps_of [(0::nat, {1::nat}), (1, {0}), (2, {}), (3, {0, 2})] 1 - set [2] \<noteq> {} \<and>
   deps_of [(0::nat, {1::nat}), (1, {0}), (2, {}), (3, {0, 2})] 3 - set [2] \<noteq> {}"
proof -
  let ?dd = "[(0::nat, {1::nat}), (1, {0}), (2, {}), (3, {0, 2})]"
  have d: "distinct (map fst ?dd)" by simp
  have r: "TopologicalSort_loop (\<lambda>k. 0) ?dd = Inr ([2], [0, 1, 3])"
    by code_simp
  from C5_amended_returns_without_unscheduled [OF d, of "\<lambda>k. 0"] obtain tests remaining where
    t: "TopologicalSort_loop (\<lambda>k. 0) ?dd = Inr (tests, remaining)"
       "TopologicalSort (\<lambda>k. 0) ?dd = Inr tests"
       "set remaining = fst ` set ?dd - set tests"
       "ordered ?dd tests"
       "\<forall>t \<in> set remaining. deps_of ?dd t - set tests \<noteq> {}"
    by blast
  from t(1) r have e: "tests = [2]" "remaining = [0, 1, 3]" by simp_all
  show ?thesis using d r t(2-) unfolding e by simp
qed

lemma while_loop_pick_cong:
  "(\<forall>j. k \<le> j \<and> j < k + length nd + length rem \<longrightarrow> pick1 j = pick2 j) \<Longrightarrow>
     while_loop pick1 k dd rem nd tests = while_loop pick2 k dd rem nd tests"
proof (induction pick1 k dd rem nd tests rule: while_loop.induct)
  case (1 pick1 k dd rem nd tests)
  show ?case
  proof (cases "nd = []")
    case True
    then show ?thesis by (simp add: while_loop.simps)
  next
    case False
    then have pk: "pick1 k = pick2 k" using "1.prems" by (cases nd) auto
    obtain cur nd1 where pop: "set_pop (pick1 k) nd = (cur, nd1)"
      by (cases "set_pop (pick1 k) nd")
    show ?thesis
    proof (cases "discard_loop cur rem dd nd1 []")
      case (Inl e)
      then show ?thesis
        using False pop pk
        by (simp add: while_loop.simps [of pick1] while_loop.simps [of pick2])
    next
      case (Inr res)
      obtain dd2 nd2 rl where res: "res = (dd2, nd2, rl)" by (cases res)
      show ?thesis
      proof (cases "remove_loop rem rl")
        case (Inl e)
        then show ?thesis
          using False pop pk Inr res
          by (simp add: while_loop.simps [of pick1] while_loop.simps [of pick2])
      next
        case rr: (Inr rem2)
        have l1: "length nd1 < length nd"
          using set_pop_length [OF pop False] .
        have l2: "length nd2 \<le> length nd1 + length rl"
          using discard_loop_length [of cur rem dd nd1 "[]" dd2 nd2 rl] Inr res by simp
        have l3: "length rem2 + length rl = length rem"
          using remove_loop_length [OF rr] .
        have rng: "\<forall>j. Suc k \<le> j \<and> j < Suc k + length nd2 + length rem2 \<longrightarrow> pick1 j = pick2 j"
          using "1.prems" l1 l2 l3 by auto
        have "while_loop pick1 (Suc k) dd2 rem2 nd2 (tests @ [cur]) =
              while_loop pick2 (Suc k) dd2 rem2 nd2 (tests @ [cur])"
          using "1.IH" [OF False pop [symmetric] _ refl refl rr rng] Inr res by simp
        then show ?thesis
          using False pop pk Inr res rr
          by (simp add: while_loop.simps [of pick1] while_loop.simps [of pick2])
      qed
    qed
  qed
qed

lemma ordered_subset_closed:
  assumes "ordered dd ts" and "set ts \<subseteq> K"
    and "\<forall>t \<in> K. deps_of dd t \<subseteq> S \<longrightarrow> t \<in> S"
  shows "set ts \<subseteq> S"
proof -
  have "i < length ts \<Longrightarrow> ts ! i \<in> S" for i
  proof (induction i rule: less_induct)
    case (less i)
    have "deps_of dd (ts ! i) \<subseteq> set (take i ts)"
      using assms(1) less.prems by (simp add: ordered_def)
    moreover have "set (take i ts) \<subseteq> S"
      using less by (auto simp: in_set_conv_nth)
    moreover have "ts ! i \<in> K" using assms(2) less.prems by auto
    ultimately show ?case using assms(3) by blast
  qed
  then show ?thesis by (auto simp: in_set_conv_nth)
qed

text \<open>
  Claim C3 says that two invocations over the same graph return the same order. The
  order follows the order of \<^verbatim>\<open>set.pop()\<close>, which is no part of the graph: on two
  independent instances, one pop order gives \<open>[0, 1]\<close> and another gives \<open>[1, 0]\<close>.
\<close>

theorem C3_counterexample:
  "TopologicalSort (\<lambda>k. 0) [(0::nat, {}), (1, {})] \<noteq>
   TopologicalSort (\<lambda>k. 1) [(0::nat, {}), (1, {})]"
proof -
  have "TopologicalSort (\<lambda>k. 0) [(0::nat, {}), (1, {})] = Inr [0, 1]" by code_simp
  moreover have "TopologicalSort (\<lambda>k. 1) [(0::nat, {}), (1, {})] = Inr [1, 0]" by code_simp
  ultimately show ?thesis by simp
qed

text \<open>
  Claim C3, amended. Two invocations over the same graph (the same dictionary, read in
  any two orders, with any two pop orders) return the same instances, each exactly once:
  the two lists are permutations of each other. When the dictionary is read in the same
  order and the pops agree on the first \<open>length deps_dict\<close> calls, the two lists are equal.
\<close>

theorem C3_amended_same_instances:
  assumes "distinct (map fst dd1)" and "distinct (map fst dd2)" and "map_of dd1 = map_of dd2"
  shows "\<exists>tests1 tests2.
           TopologicalSort pick1 dd1 = Inr tests1 \<and> TopologicalSort pick2 dd2 = Inr tests2 \<and>
           distinct tests1 \<and> distinct tests2 \<and> set tests1 = set tests2 \<and>
           (dd1 = dd2 \<and> (\<forall>k < length dd1. pick1 k = pick2 k) \<longrightarrow> tests1 = tests2)"
proof -
  from TopologicalSort_loop_result [OF assms(1), of pick1] obtain t1 r1 where
    1: "TopologicalSort pick1 dd1 = Inr t1" "distinct (t1 @ r1)"
       "set t1 \<union> set r1 = fst ` set dd1" "\<forall>t \<in> set r1. deps_of dd1 t - set t1 \<noteq> {}"
       "ordered dd1 t1" by blast
  from TopologicalSort_loop_result [OF assms(2), of pick2] obtain t2 r2 where
    2: "TopologicalSort pick2 dd2 = Inr t2" "distinct (t2 @ r2)"
       "set t2 \<union> set r2 = fst ` set dd2" "\<forall>t \<in> set r2. deps_of dd2 t - set t2 \<noteq> {}"
       "ordered dd2 t2" by blast
  have keys: "fst ` set dd1 = fst ` set dd2"
    using assms(3) by (metis dom_map_of_conv_image_fst)
  have deps: "deps_of dd1 = deps_of dd2"
    using assms(3) by (auto simp: deps_of_def fun_eq_iff)
  have c1: "\<forall>t \<in> fst ` set dd1. deps_of dd1 t \<subseteq> set t1 \<longrightarrow> t \<in> set t1"
    using 1(3,4) by blast
  have c2: "\<forall>t \<in> fst ` set dd1. deps_of dd1 t \<subseteq> set t2 \<longrightarrow> t \<in> set t2"
    using 2(3,4) keys deps by (metis Diff_eq_empty_iff UnE)
  have "set t1 \<subseteq> set t2"
    using 1(5) _ c2 by (rule ordered_subset_closed) (use 1(3) in auto)
  moreover have "set t2 \<subseteq> set t1"
  proof -
    have o: "ordered dd1 t2" using 2(5) deps by (simp add: ordered_def)
    show ?thesis
      using o _ c1 by (rule ordered_subset_closed) (use 2(3) keys in auto)
  qed
  moreover have "t1 = t2" if "dd1 = dd2" "\<forall>k < length dd1. pick1 k = pick2 k"
  proof -
    let ?rem = "map fst (filter (\<lambda>(test, deps). deps \<noteq> {}) dd1)"
    let ?nd = "map fst (filter (\<lambda>(test, deps). deps = {}) dd1)"
    have nd: "fold (\<lambda>test s. set_add s test) ?nd [] = ?nd"
      using fold_set_add_distinct [of ?nd "[]"] assms(1) by (simp add: distinct_map_filter)
    have "length ?nd + length ?rem = length dd1"
      using sum_length_filter_compl [of "\<lambda>(test, deps). deps = {}" dd1]
      by (simp add: case_prod_unfold)
    then have "\<forall>j. 0 \<le> j \<and> j < 0 + length ?nd + length ?rem \<longrightarrow> pick1 j = pick2 j"
      using that(2) by simp
    from while_loop_pick_cong [OF this]
    have "TopologicalSort pick1 dd1 = TopologicalSort pick2 dd1"
      by (simp add: TopologicalSort_def TopologicalSort_loop_def nd)
    then show ?thesis using 1(1) 2(1) that(1) by simp
  qed
  ultimately show ?thesis using 1(1,2) 2(1,2) by auto
qed

text \<open>
  The same dictionary read in two orders: the lists differ and hold the same instances.
\<close>

theorem C3_amended_witness:
  "distinct (map fst [(0::nat, {}), (1, {})]) \<and> distinct (map fst [(1::nat, {}), (0, {})]) \<and>
   map_of [(0::nat, {}), (1, {}::nat set)] = map_of [(1::nat, {}), (0, {})] \<and>
   TopologicalSort (\<lambda>k. 0) [(0::nat, {}), (1, {})] = Inr [0, 1] \<and>
   TopologicalSort (\<lambda>k. 0) [(1::nat, {}), (0, {})] = Inr [1, 0] \<and>
   set [0::nat, 1] = set [1, 0]"
proof -
  have d1: "distinct (map fst [(0::nat, {}::nat set), (1, {})])" by simp
  have d2: "distinct (map fst [(1::nat, {}::nat set), (0, {})])" by simp
  have m: "map_of [(0::nat, {}), (1, {}::nat set)] = map_of [(1::nat, {}), (0, {})]"
    by (auto simp: fun_eq_iff)
  have r1: "TopologicalSort (\<lambda>k. 0) [(0::nat, {}), (1, {})] = Inr [0, 1]" by code_simp
  have r2: "TopologicalSort (\<lambda>k. 0) [(1::nat, {}), (0, {})] = Inr [1, 0]" by code_simp
  from C3_amended_same_instances [OF d1 d2 m, of "\<lambda>k. 0" "\<lambda>k. 0"] r1 r2 d1 d2 m
  show ?thesis by auto
qed

subsection \<open>Registration\<close>

lemma register_loop_duplicate:
  assumes "\<exists>p \<in> set ps. map_of pm p \<noteq> None"
  shows "\<exists>pre p post pm'.
           ps = pre @ p # post \<and>
           register_loop c ps pm = (Some (DuplicatePropertyException p), pm') \<and>
           distinct pre \<and>
           (map_of pm p \<noteq> None \<or> p \<in> set pre) \<and>
           (\<forall>q \<in> set pre. map_of pm q = None \<and> map_of pm' q = Some c) \<and>
           (\<forall>q. q \<notin> set pre \<longrightarrow> map_of pm' q = map_of pm q)"
  using assms
proof (induction ps arbitrary: pm)
  case Nil
  then show ?case by simp
next
  case (Cons x xs)
  show ?case
  proof (cases "map_of pm x \<noteq> None")
    case True
    have "x # xs = [] @ x # xs \<and>
          register_loop c (x # xs) pm = (Some (DuplicatePropertyException x), pm) \<and>
          distinct [] \<and>
          (map_of pm x \<noteq> None \<or> x \<in> set []) \<and>
          (\<forall>q \<in> set []. map_of pm q = None \<and> map_of pm q = Some c) \<and>
          (\<forall>q. q \<notin> set [] \<longrightarrow> map_of pm q = map_of pm q)"
      using True by simp
    then show ?thesis by blast
  next
    case False
    let ?pm1 = "AList.update x c pm"
    have m1: "map_of ?pm1 = (map_of pm)(x \<mapsto> c)" by (rule update_conv')
    from Cons.prems False have "\<exists>p \<in> set xs. map_of ?pm1 p \<noteq> None"
      by (auto simp: m1)
    from Cons.IH [OF this] obtain pre p post pm' where
      xs: "xs = pre @ p # post" and
      r: "register_loop c xs ?pm1 = (Some (DuplicatePropertyException p), pm')" and
      dp: "distinct pre" and
      cl: "map_of ?pm1 p \<noteq> None \<or> p \<in> set pre" and
      a: "\<forall>q \<in> set pre. map_of ?pm1 q = None \<and> map_of pm' q = Some c" and
      b: "\<forall>q. q \<notin> set pre \<longrightarrow> map_of pm' q = map_of ?pm1 q"
      by blast
    have xpre: "x \<notin> set pre" using a by (auto simp: m1)
    have "x # xs = (x # pre) @ p # post" using xs by simp
    moreover have "register_loop c (x # xs) pm = (Some (DuplicatePropertyException p), pm')"
      using False r by simp
    moreover have "distinct (x # pre)" using dp xpre by simp
    moreover have "map_of pm p \<noteq> None \<or> p \<in> set (x # pre)"
    proof (cases "p = x")
      case True
      then show ?thesis by simp
    next
      case False
      then have "map_of ?pm1 p = map_of pm p" by (simp add: m1)
      then show ?thesis using cl by auto
    qed
    moreover have "\<forall>q \<in> set (x # pre). map_of pm q = None \<and> map_of pm' q = Some c"
    proof
      fix q assume "q \<in> set (x # pre)"
      then consider "q = x" | "q \<in> set pre" "q \<noteq> x" by auto
      then show "map_of pm q = None \<and> map_of pm' q = Some c"
      proof cases
        case 1
        then show ?thesis using False b xpre by (simp add: m1)
      next
        case 2
        then show ?thesis using a by (auto simp: m1)
      qed
    qed
    moreover have "\<forall>q. q \<notin> set (x # pre) \<longrightarrow> map_of pm' q = map_of pm q"
      using b by (simp add: m1)
    ultimately show ?thesis by blast
  qed
qed

text \<open>
  Claim C10. Registration is not atomic on failure. When \<^verbatim>\<open>PROVIDES\<close> of the class holds a
  property that an earlier registration claimed, \<^verbatim>\<open>RegisterTest\<close> raises
  DuplicatePropertyException at the first property \<open>p\<close> of the list that is already in
  the map when its turn comes: \<open>p\<close> was claimed before the call, or it is one of the
  properties \<open>pre\<close> that stand before it in the list. The class is not appended to
  \<^verbatim>\<open>_all_tests\<close>; and the properties \<open>pre\<close>, which are distinct and none of which was in the
  map, are now mapped to the class, the rest of the map being as before.
\<close>

theorem C10_registration_not_atomic:
  assumes "\<exists>p \<in> set (PROVIDES (classes test_class)). map_of (property_map self) p \<noteq> None"
  shows "\<exists>pre p post self'.
           PROVIDES (classes test_class) = pre @ p # post \<and>
           RegisterTest classes self test_class = (Some (DuplicatePropertyException p), self') \<and>
           all_tests self' = all_tests self \<and>
           message_fetcher self' = message_fetcher self \<and>
           distinct pre \<and>
           (map_of (property_map self) p \<noteq> None \<or> p \<in> set pre) \<and>
           (\<forall>q \<in> set pre. map_of (property_map self) q = None \<and>
                           map_of (property_map self') q = Some test_class) \<and>
           (\<forall>q. q \<notin> set pre \<longrightarrow> map_of (property_map self') q = map_of (property_map self) q)"
proof -
  from register_loop_duplicate [OF assms, of test_class] obtain pre p post pm' where
    ps: "PROVIDES (classes test_class) = pre @ p # post" and
    r: "register_loop test_class (PROVIDES (classes test_class)) (property_map self) =
          (Some (DuplicatePropertyException p), pm')" and
    dp: "distinct pre" and
    cl: "map_of (property_map self) p \<noteq> None \<or> p \<in> set pre" and
    a: "\<forall>q \<in> set pre. map_of (property_map self) q = None \<and> map_of pm' q = Some test_class" and
    b: "\<forall>q. q \<notin> set pre \<longrightarrow> map_of pm' q = map_of (property_map self) q"
    by blast
  let ?self' = "self\<lparr>property_map := pm'\<rparr>"
  have "RegisterTest classes self test_class = (Some (DuplicatePropertyException p), ?self')"
    using r by (simp add: RegisterTest_def)
  moreover have "all_tests ?self' = all_tests self" by simp
  moreover have "message_fetcher ?self' = message_fetcher self" by simp
  ultimately show ?thesis using ps dp cl a b
    by (intro exI [of _ pre] exI [of _ p] exI [of _ post] exI [of _ ?self']) simp
qed

text \<open>
  \<open>A\<close> provides \<^verbatim>\<open>dmx_address\<close>; \<open>B\<close> provides \<^verbatim>\<open>label\<close>, \<^verbatim>\<open>dmx_address\<close> and \<^verbatim>\<open>footprint\<close>.
  Registering \<open>B\<close> after \<open>A\<close> raises the exception for \<^verbatim>\<open>dmx_address\<close>, leaves \<^verbatim>\<open>label\<close>
  mapped to \<open>B\<close>, and never reaches \<^verbatim>\<open>footprint\<close>.
\<close>

theorem C10_witness:
  "map_of (property_map (snd (RegisterTest duplicate_classes (TestRunner_init 32 48) Test_A)))
     ''dmx_address'' \<noteq> None \<and>
   PROVIDES (duplicate_classes Test_B) = [''label''] @ ''dmx_address'' # [''footprint''] \<and>
   RegisterTest duplicate_classes
     (snd (RegisterTest duplicate_classes (TestRunner_init 32 48) Test_A)) Test_B =
     (Some (DuplicatePropertyException ''dmx_address''),
      \<lparr>property_map = [(''dmx_address'', Test_A), (''label'', Test_B)],
       all_tests = [Test_A],
       message_fetcher = QueuedMessageFetcher_init 25 32 48\<rparr>)"
proof -
  let ?self = "snd (RegisterTest duplicate_classes (TestRunner_init 32 48) Test_A)"
  have s: "?self = \<lparr>property_map = [(''dmx_address'', Test_A)], all_tests = [Test_A],
                    message_fetcher = QueuedMessageFetcher_init 25 32 48\<rparr>"
    by (simp add: RegisterTest_def duplicate_classes_def TestRunner_init_def)
  have h: "\<exists>p \<in> set (PROVIDES (duplicate_classes Test_B)). map_of (property_map ?self) p \<noteq> None"
    unfolding s by (simp add: duplicate_classes_def)
  from C10_registration_not_atomic
         [where classes = duplicate_classes and test_class = Test_B and self = ?self, OF h]
  obtain pre p post self' where
    r: "RegisterTest duplicate_classes ?self Test_B = (Some (DuplicatePropertyException p), self')"
    by blast
  have e: "RegisterTest duplicate_classes ?self Test_B =
     (Some (DuplicatePropertyException ''dmx_address''),
      \<lparr>property_map = [(''dmx_address'', Test_A), (''label'', Test_B)],
       all_tests = [Test_A],
       message_fetcher = QueuedMessageFetcher_init 25 32 48\<rparr>)"
    unfolding s by (simp add: RegisterTest_def duplicate_classes_def)
  have ps: "PROVIDES (duplicate_classes Test_B) = [''label''] @ ''dmx_address'' # [''footprint'']"
    by (simp add: duplicate_classes_def)
  show ?thesis using r e s ps by simp
qed

subsection \<open>The run loop\<close>

lemma check_requires_fst:
  "fst (check_requires builtin dev ps v) = fst (check_requires builtin dev ps v')"
  by (induction ps arbitrary: v v') (auto split: sum.splits)

lemma check_requires_meaning:
  "fst (check_requires builtin dev ps v) \<longleftrightarrow>
     (\<forall>p \<in> set ps. properties dev p \<noteq> None \<or> p \<in> set (attribute_names builtin))"
proof (induction ps arbitrary: v)
  case Nil
  then show ?case by simp
next
  case (Cons p ps)
  show ?case
  proof (cases "p \<in> set (attribute_names builtin)")
    case True
    from getattr_attribute [OF True, of dev] obtain a where "getattr builtin dev p = Inr a"
      by blast
    then show ?thesis using True Cons.IH by simp
  next
    case False
    show ?thesis
      using False Cons.IH getattr_property [OF False, of dev]
      by (cases "properties dev p") auto
  qed
qed

lemma check_requires_False:
  "check_requires builtin dev ps v = (False, v') \<Longrightarrow> \<exists>p. v' = Some p"
  by (induction ps arbitrary: v) (auto split: sum.splits)

lemma idle_logging [simp]: "idle (logging l m f) = idle f"
  by (simp add: idle_def logging_def)

lemma loop_limit_errors_logging:
  "m \<noteq> Queued_message_hit_loop_limit (limit f) \<Longrightarrow>
     loop_limit_errors (logging l m f) = loop_limit_errors f"
  by (simp add: loop_limit_errors_def logging_def)

lemma run_tests_loop_executed:
  "run_tests_loop builtin classes Run tests st rs = Returned (st', rs') \<Longrightarrow>
     executed st' = executed st @ scheduled_runs builtin classes Run tests (device st)"
proof (induction tests arbitrary: st rs)
  case Nil
  then show ?case by simp
next
  case (Cons t tests)
  show ?case
  proof (cases "FetchAllMessages (fetcher st) rs")
    case (Blocked x)
    then show ?thesis using Cons.prems by (cases x) simp
  next
    case (Raised e x)
    then show ?thesis using Cons.prems by (cases x) simp
  next
    case (Returned x)
    obtain f rs1 where x: "x = (f, rs1)" by (cases x)
    let ?f = "logging DEBUG Starting_test f"
    show ?thesis
    proof (cases "Requires classes t")
      case (Inl e)
      show ?thesis
      proof (cases "skip_test (st\<lparr>fetcher := ?f\<rparr>) (property st)")
        case (Inl e')
        then show ?thesis using Cons.prems Returned x \<open>Requires classes t = Inl e\<close> by simp
      next
        case (Inr st1)
        then have s: "executed st1 = executed st" "device st1 = device st"
          by (auto simp: skip_test_def split: option.splits)
        have "run_tests_loop builtin classes Run tests st1 rs1 = Returned (st', rs')"
          using Cons.prems Returned x Inr \<open>Requires classes t = Inl e\<close> by simp
        from Cons.IH [OF this] show ?thesis
          using s \<open>Requires classes t = Inl e\<close> by simp
      qed
    next
      case (Inr ps)
      obtain ok pr where chk: "check_requires builtin (device st) ps (property st) = (ok, pr)"
        by (cases "check_requires builtin (device st) ps (property st)")
      have ok: "fst (check_requires builtin (device st) ps None) = ok"
        using check_requires_fst [of builtin "device st" ps None "property st"] chk by simp
      show ?thesis
      proof (cases ok)
        case True
        let ?st1 = "st\<lparr>fetcher := logging INFO Test_finished ?f, device := Run t (device st),
                        property := pr, executed := executed st @ [t]\<rparr>"
        have "run_tests_loop builtin classes Run tests ?st1 rs1 = Returned (st', rs')"
          using Cons.prems Returned x Inr chk True by simp
        from Cons.IH [OF this] show ?thesis
          using Inr ok True by simp
      next
        case False
        show ?thesis
        proof (cases "skip_test (st\<lparr>fetcher := ?f\<rparr>) pr")
          case (Inl e')
          then show ?thesis using Cons.prems Returned x Inr chk False by simp
        next
          case st1: (Inr st1)
          then have s: "executed st1 = executed st" "device st1 = device st"
            by (auto simp: skip_test_def split: option.splits)
          have "run_tests_loop builtin classes Run tests st1 rs1 = Returned (st', rs')"
            using Cons.prems Returned x Inr chk False st1 by simp
          from Cons.IH [OF this] show ?thesis
            using s Inr ok False by simp
        qed
      qed
    qed
  qed
qed

lemma run_tests_loop_every_cycle_at_limit:
  assumes "\<forall>t \<in> set tests. t \<noteq> PyNone"
    and "\<forall>ru \<in> set rs. more_remain (queued_message_pid (fetcher st)) (status_message_pid (fetcher st)) ru"
    and "idle (fetcher st)" and "0 \<le> limit (fetcher st)"
    and "nat (limit (fetcher st)) * length tests \<le> length rs"
  shows "\<exists>st'. run_tests_loop builtin classes Run tests st rs =
              Returned (st', drop (nat (limit (fetcher st)) * length tests) rs) \<and>
           executed st' = executed st @ scheduled_runs builtin classes Run tests (device st) \<and>
           limit (fetcher st') = limit (fetcher st) \<and>
           fetches (fetcher st') = fetches (fetcher st) + nat (limit (fetcher st)) * length tests \<and>
           loop_limit_errors (fetcher st') = loop_limit_errors (fetcher st) + length tests"
  using assms
proof (induction tests arbitrary: st rs)
  case Nil
  then show ?case by simp
next
  case (Cons t tests)
  let ?f = "fetcher st"
  let ?L = "nat (limit ?f)"
  from Cons.prems(1) obtain c i where t: "t = TestObj c i" by (cases t) auto
  have len: "?L \<le> length rs" "?L * length tests \<le> length (drop ?L rs)"
    using Cons.prems(5) by (auto simp: algebra_simps)
  have cont: "\<forall>ru \<in> set rs. more_remain (queued_message_pid ?f) (status_message_pid ?f) ru
                \<or> is_timer (fst ru)"
    using Cons.prems(2) by blast
  have "\<forall>ru \<in> set (take ?L rs). more_remain (queued_message_pid ?f) (status_message_pid ?f) ru"
    using Cons.prems(2) by (meson in_set_takeD)
  then have tl: "timer_log (take ?L rs) = []" by (rule timer_log_more)
  from FetchAllMessages_continuing [OF cont Cons.prems(3,4)] len(1)
  obtain f1 where f1: "FetchAllMessages ?f rs = Returned (f1, drop ?L rs)"
    and lim1: "limit f1 = limit ?f"
    and fet1: "fetches f1 = fetches ?f + ?L" and idle1: "idle f1"
    and pid1: "queued_message_pid f1 = queued_message_pid ?f"
      "status_message_pid f1 = status_message_pid ?f"
    and log1: "log f1 = log ?f @ [(ERROR, Queued_message_hit_loop_limit (limit ?f))]"
    unfolding tl by auto
  have err1: "loop_limit_errors f1 = loop_limit_errors ?f + 1"
    by (simp add: loop_limit_errors_def log1 lim1)
  have req: "Requires classes t = Inr (REQUIRES (classes c))"
    by (simp add: Requires_def t)
  obtain ok pr where chk: "check_requires builtin (device st) (REQUIRES (classes c)) (property st) = (ok, pr)"
    by (cases "check_requires builtin (device st) (REQUIRES (classes c)) (property st)")
  have ok: "fst (check_requires builtin (device st) (REQUIRES (classes c)) None) = ok"
    using check_requires_fst [of builtin "device st" "REQUIRES (classes c)" None "property st"] chk
    by simp
  have tests: "\<forall>t \<in> set tests. t \<noteq> PyNone" using Cons.prems(1) by simp
  have more: "\<forall>ru \<in> set (drop ?L rs).
      more_remain (queued_message_pid ?f) (status_message_pid ?f) ru"
    using Cons.prems(2) by (meson in_set_dropD)
  have dr: "drop (?L * length tests) (drop ?L rs) = drop (?L * length (t # tests)) rs"
    by (simp add: add.commute)
  show ?case
  proof (cases ok)
    case True
    let ?st1 = "st\<lparr>fetcher := logging INFO Test_finished (logging DEBUG Starting_test f1),
                    device := Run t (device st),
                    property := pr, executed := executed st @ [t]\<rparr>"
    have step: "run_tests_loop builtin classes Run (t # tests) st rs =
                run_tests_loop builtin classes Run tests ?st1 (drop ?L rs)"
      using f1 req chk True by simp
    have p: "fetcher ?st1 = logging INFO Test_finished (logging DEBUG Starting_test f1)" by simp
    have pf: "limit (fetcher ?st1) = limit ?f"
      "queued_message_pid (fetcher ?st1) = queued_message_pid ?f"
      "status_message_pid (fetcher ?st1) = status_message_pid ?f"
      "fetches (fetcher ?st1) = fetches ?f + ?L"
      using lim1 pid1 fet1 by (simp_all add: logging_def)
    have pe: "loop_limit_errors (fetcher ?st1) = loop_limit_errors ?f + 1"
      unfolding p using err1 by (simp add: loop_limit_errors_def logging_def lim1)
    have "\<exists>st'. run_tests_loop builtin classes Run tests ?st1 (drop ?L rs) =
              Returned (st', drop (nat (limit (fetcher ?st1)) * length tests) (drop ?L rs)) \<and>
           executed st' = executed ?st1 @ scheduled_runs builtin classes Run tests (device ?st1) \<and>
           limit (fetcher st') = limit (fetcher ?st1) \<and>
           fetches (fetcher st') =
             fetches (fetcher ?st1) + nat (limit (fetcher ?st1)) * length tests \<and>
           loop_limit_errors (fetcher st') = loop_limit_errors (fetcher ?st1) + length tests"
    proof (rule Cons.IH [OF tests])
      show "\<forall>ru \<in> set (drop ?L rs). more_remain (queued_message_pid (fetcher ?st1))
              (status_message_pid (fetcher ?st1)) ru"
        using more unfolding pf .
      show "idle (fetcher ?st1)" using idle1 by simp
      show "0 \<le> limit (fetcher ?st1)" using Cons.prems(4) unfolding pf .
      show "nat (limit (fetcher ?st1)) * length tests \<le> length (drop ?L rs)"
        using len(2) unfolding pf .
    qed
    then obtain st' where
      r: "run_tests_loop builtin classes Run tests ?st1 (drop ?L rs) =
            Returned (st', drop (?L * length tests) (drop ?L rs))"
      and e: "executed st' = executed ?st1 @ scheduled_runs builtin classes Run tests (device ?st1)"
      and l: "limit (fetcher st') = limit ?f"
      and f: "fetches (fetcher st') = fetches ?f + ?L + ?L * length tests"
      and n: "loop_limit_errors (fetcher st') = loop_limit_errors ?f + 1 + length tests"
      unfolding pf pe by blast
    have "executed st' = executed st @ scheduled_runs builtin classes Run (t # tests) (device st)"
      using e req ok True by simp
    then show ?thesis
      unfolding step r dr using l f n by simp
  next
    case False
    from chk False have "check_requires builtin (device st) (REQUIRES (classes c)) (property st) = (False, pr)"
      by simp
    then obtain p where pr: "pr = Some p" using check_requires_False by blast
    let ?st1 = "st\<lparr>fetcher := logging DEBUG (Property_not_found_skipping_test p)
                                 (logging DEBUG Starting_test f1),
                    property := pr\<rparr>"
    have step: "run_tests_loop builtin classes Run (t # tests) st rs =
                run_tests_loop builtin classes Run tests ?st1 (drop ?L rs)"
      using f1 req chk False pr by (simp add: skip_test_def)
    have p: "fetcher ?st1 = logging DEBUG (Property_not_found_skipping_test p)
                              (logging DEBUG Starting_test f1)" by simp
    have pf: "limit (fetcher ?st1) = limit ?f"
      "queued_message_pid (fetcher ?st1) = queued_message_pid ?f"
      "status_message_pid (fetcher ?st1) = status_message_pid ?f"
      "fetches (fetcher ?st1) = fetches ?f + ?L"
      using lim1 pid1 fet1 by (simp_all add: logging_def)
    have pe: "loop_limit_errors (fetcher ?st1) = loop_limit_errors ?f + 1"
      unfolding p using err1 by (simp add: loop_limit_errors_def logging_def lim1)
    have "\<exists>st'. run_tests_loop builtin classes Run tests ?st1 (drop ?L rs) =
              Returned (st', drop (nat (limit (fetcher ?st1)) * length tests) (drop ?L rs)) \<and>
           executed st' = executed ?st1 @ scheduled_runs builtin classes Run tests (device ?st1) \<and>
           limit (fetcher st') = limit (fetcher ?st1) \<and>
           fetches (fetcher st') =
             fetches (fetcher ?st1) + nat (limit (fetcher ?st1)) * length tests \<and>
           loop_limit_errors (fetcher st') = loop_limit_errors (fetcher ?st1) + length tests"
    proof (rule Cons.IH [OF tests])
      show "\<forall>ru \<in> set (drop ?L rs). more_remain (queued_message_pid (fetcher ?st1))
              (status_message_pid (fetcher ?st1)) ru"
        using more unfolding pf .
      show "idle (fetcher ?st1)" using idle1 by simp
      show "0 \<le> limit (fetcher ?st1)" using Cons.prems(4) unfolding pf .
      show "nat (limit (fetcher ?st1)) * length tests \<le> length (drop ?L rs)"
        using len(2) unfolding pf .
    qed
    then obtain st' where
      r: "run_tests_loop builtin classes Run tests ?st1 (drop ?L rs) =
            Returned (st', drop (?L * length tests) (drop ?L rs))"
      and e: "executed st' = executed ?st1 @ scheduled_runs builtin classes Run tests (device ?st1)"
      and l: "limit (fetcher st') = limit ?f"
      and f: "fetches (fetcher st') = fetches ?f + ?L + ?L * length tests"
      and n: "loop_limit_errors (fetcher st') = loop_limit_errors ?f + 1 + length tests"
      unfolding pf pe by blast
    have "executed st' = executed st @ scheduled_runs builtin classes Run (t # tests) (device st)"
      using e req ok False by simp
    then show ?thesis
      unfolding step r dr using l f n by simp
  qed
qed

text \<open>
  Claim C2, amended. When the counter reaches the limit, the drain cycle ends: the error is
  logged, the event loop is stopped, and the cycle issues no further fetch. The run goes
  on. Let every response leave more messages to fetch, with at least \<open>limit\<close> responses
  for each scheduled test, so that every drain cycle ends at the limit: the loop of
  \<^verbatim>\<open>RunTests\<close> returns after one full drain cycle per test (\<open>limit\<close> fetches and one loop
  limit error each), and it has executed every test whose required properties could all
  be read from the device at its turn. These are the tests it executes on any responses
  with which it returns: what a drain cycle ends with never decides whether a test is
  executed.
\<close>

theorem C2_amended_run_continues_after_loop_limit:
  assumes "\<forall>t \<in> set tests. t \<noteq> PyNone"
    and "\<forall>ru \<in> set rs. more_remain (queued_message_pid (fetcher st))
                          (status_message_pid (fetcher st)) ru"
    and "idle (fetcher st)" and "0 \<le> limit (fetcher st)"
    and "nat (limit (fetcher st)) * length tests \<le> length rs"
  shows "(\<exists>st'. run_tests_loop builtin classes Run tests st rs =
              Returned (st', drop (nat (limit (fetcher st)) * length tests) rs) \<and>
           executed st' = executed st @ scheduled_runs builtin classes Run tests (device st) \<and>
           limit (fetcher st') = limit (fetcher st) \<and>
           fetches (fetcher st') = fetches (fetcher st) + nat (limit (fetcher st)) * length tests \<and>
           loop_limit_errors (fetcher st') = loop_limit_errors (fetcher st) + length tests) \<and>
         (\<forall>rs0 st0 rs1. run_tests_loop builtin classes Run tests st rs0 = Returned (st0, rs1) \<longrightarrow>
            executed st0 = executed st @ scheduled_runs builtin classes Run tests (device st))"
proof
  show "\<exists>st'. run_tests_loop builtin classes Run tests st rs =
              Returned (st', drop (nat (limit (fetcher st)) * length tests) rs) \<and>
           executed st' = executed st @ scheduled_runs builtin classes Run tests (device st) \<and>
           limit (fetcher st') = limit (fetcher st) \<and>
           fetches (fetcher st') = fetches (fetcher st) + nat (limit (fetcher st)) * length tests \<and>
           loop_limit_errors (fetcher st') = loop_limit_errors (fetcher st) + length tests"
    using assms by (rule run_tests_loop_every_cycle_at_limit)
  show "\<forall>rs0 st0 rs1. run_tests_loop builtin classes Run tests st rs0 = Returned (st0, rs1) \<longrightarrow>
          executed st0 = executed st @ scheduled_runs builtin classes Run tests (device st)"
    using run_tests_loop_executed by blast
qed

text \<open>
  Claim C2 says that a drain cycle that reaches the limit ends the whole run, with no
  further test drained or executed. Two independent tests and a device that always has
  more messages: the drain before the first test reaches the limit of 25, and the run
  executes the first test, drains again (25 more fetches, the second loop limit error)
  and executes the second test.
\<close>

theorem C2_counterexample:
  "run_summary (RunTests python27_names 10 independent_classes (\<lambda>t dev. dev) (\<lambda>k. 0)
      independent_runner None (replicate 60 (more_response, None))
        :: (example test_obj list \<times> (example, int) run_state) outcome) =
     (None, False, [TestObj Test_A 0, TestObj Test_B 1], [TestObj Test_A 0, TestObj Test_B 1], 50,
      [(DEBUG, Test_order),
       (ERROR, Queued_message_hit_loop_limit 25), (DEBUG, Starting_test), (INFO, Test_finished),
       (ERROR, Queued_message_hit_loop_limit 25), (DEBUG, Starting_test), (INFO, Test_finished)])"
  by code_simp

text \<open>The loop over the same two tests, from the state in which \<^verbatim>\<open>RunTests\<close> enters it.\<close>

theorem C2_amended_witness:
  "more_remain 32 48 (more_response, None) \<and>
   idle (QueuedMessageFetcher_init 25 32 48) \<and>
   (\<exists>st'. run_tests_loop python27_names independent_classes (\<lambda>t dev. dev)
             [TestObj Test_A 0, TestObj Test_B 1]
             \<lparr>fetcher = QueuedMessageFetcher_init 25 32 48,
              device = DeviceProperties_init [] :: int DeviceProperties,
              property = None, executed = []\<rparr>
             (replicate 60 (more_response, None)) =
           Returned (st', replicate 10 (more_response, None)) \<and>
      executed st' = [TestObj Test_A 0, TestObj Test_B 1] \<and>
      fetches (fetcher st') = 50 \<and>
      loop_limit_errors (fetcher st') = 2)"
proof -
  let ?f = "QueuedMessageFetcher_init 25 32 48"
  let ?st = "\<lparr>fetcher = ?f, device = DeviceProperties_init [] :: int DeviceProperties,
              property = None, executed = [] :: example test_obj list\<rparr>"
  let ?tests = "[TestObj Test_A 0, TestObj Test_B 1]"
  have m: "more_remain 32 48 (more_response, None)"
    by (simp add: more_remain_def more_response_def)
  have i: "idle ?f" by (simp add: idle_def QueuedMessageFetcher_init_def)
  have h1: "\<forall>t \<in> set ?tests. t \<noteq> PyNone" by simp
  have h2: "\<forall>ru \<in> set (replicate 60 (more_response, None)).
              more_remain (queued_message_pid (fetcher ?st)) (status_message_pid (fetcher ?st)) ru"
    using m by (simp add: QueuedMessageFetcher_init_def)
  have h3: "idle (fetcher ?st)" using i by simp
  have h4: "0 \<le> limit (fetcher ?st)" by (simp add: QueuedMessageFetcher_init_def)
  have h5: "nat (limit (fetcher ?st)) * length ?tests \<le> length (replicate 60 (more_response, None))"
    by (simp add: QueuedMessageFetcher_init_def)
  have sr: "scheduled_runs python27_names independent_classes (\<lambda>t dev. dev) ?tests (device ?st) = ?tests"
    by (simp add: Requires_def independent_classes_def)
  have e0: "loop_limit_errors ?f = 0" "fetches ?f = 0" "nat (limit ?f) = 25"
    by (simp_all add: loop_limit_errors_def QueuedMessageFetcher_init_def)
  from C2_amended_run_continues_after_loop_limit
         [where classes = independent_classes and Run = "\<lambda>t dev. dev", OF h1 h2 h3 h4 h5]
  obtain st' where
    r: "run_tests_loop python27_names independent_classes (\<lambda>t dev. dev) ?tests ?st
          (replicate 60 (more_response, None)) =
        Returned (st', drop (nat (limit (fetcher ?st)) * length ?tests)
                        (replicate 60 (more_response, None)))"
    and e: "executed st' = executed ?st @
              scheduled_runs python27_names independent_classes (\<lambda>t dev. dev) ?tests (device ?st)"
    and f: "fetches (fetcher st') =
              fetches (fetcher ?st) + nat (limit (fetcher ?st)) * length ?tests"
    and n: "loop_limit_errors (fetcher st') = loop_limit_errors (fetcher ?st) + length ?tests"
    by blast
  have d: "drop (nat (limit (fetcher ?st)) * length ?tests) (replicate 60 (more_response, None)) =
           replicate 10 (more_response, None)"
    by (simp add: e0)
  have "executed st' = ?tests" using e unfolding sr by simp
  moreover have "fetches (fetcher st') = 50" using f by (simp add: e0)
  moreover have "loop_limit_errors (fetcher st') = 2" using n by (simp add: e0)
  ultimately show ?thesis
    using m i r unfolding d by blast
qed

subsection \<open>The resolver: invariant of the two dictionaries\<close>

lemma extends_refl: "extends st st"
  by (simp add: extends_def)

lemma extends_trans: "extends st st1 \<Longrightarrow> extends st1 st2 \<Longrightarrow> extends st st2"
  unfolding extends_def is_done_def by (auto; metis)

lemma extends_done: "extends st st' \<Longrightarrow> is_done st c \<Longrightarrow> is_done st' c \<and> obj_of st' c = obj_of st c"
  by (auto simp: extends_def is_done_def obj_of_def)

lemma update_fresh:
  "k \<notin> fst ` set al \<Longrightarrow> AList.update k v al = al @ [(k, v)]"
  by (induction al) auto

lemma topo_snoc:
  assumes "topo al" and "k \<notin> fst ` set al" and "v \<subseteq> fst ` set al"
  shows "topo (al @ [(k, v)])"
  using assms unfolding topo_def
  by (auto simp: nth_append less_Suc_eq)

lemma is_done_obj_of: "is_done st c \<Longrightarrow> \<exists>i. obj_of st c = TestObj c i"
  by (auto simp: is_done_def obj_of_def)

lemma AddTest_finish:
  assumes inv2: "resolver_inv classes pm st2 (parents @ [c])"
    and inprog: "class_name_to_object st2 c = Some PyNone"
    and notin: "c \<notin> set parents"
    and dcs: "dep_classes classes pm c = Inr dcs"
    and alldone: "\<forall>d \<in> set dcs. is_done st2 d"
    and idx: "i0 < length (instances st2)" "instances st2 ! i0 = c"
  shows "resolver_inv classes pm
           (st2\<lparr>class_name_to_object := (class_name_to_object st2)(c \<mapsto> TestObj c i0),
                deps_map := AList.update (TestObj c i0) (set (map (obj_of st2) dcs)) (deps_map st2)\<rparr>)
           parents"
    (is "resolver_inv classes pm ?st' parents")
proof -
  let ?obj = "TestObj c i0"
  have
    i1: "\<forall>e. class_name_to_object st2 e = Some PyNone \<longrightarrow> e \<in> set (parents @ [c])" and
    i2: "\<forall>e d i. class_name_to_object st2 e = Some (TestObj d i) \<longrightarrow>
           d = e \<and> i < length (instances st2) \<and> instances st2 ! i = e" and
    i3: "\<forall>e. is_done st2 e \<longrightarrow>
        (\<exists>ds. dep_classes classes pm e = Inr ds \<and> (\<forall>d \<in> set ds. is_done st2 d) \<and>
           map_of (deps_map st2) (obj_of st2 e) = Some (obj_of st2 ` set ds))" and
    i4: "topo (deps_map st2)" and
    i5: "\<forall>obj \<in> fst ` set (deps_map st2). \<exists>e. is_done st2 e \<and> obj = obj_of st2 e" and
    i6: "distinct (instances st2)" and
    i7: "set (instances st2) = dom (class_name_to_object st2)"
    by (insert inv2 [unfolded resolver_inv_def], (elim conjE, assumption)+)
  have nd: "\<not> is_done st2 c" using inprog by (simp add: is_done_def)
  have fresh: "?obj \<notin> fst ` set (deps_map st2)"
  proof
    assume "?obj \<in> fst ` set (deps_map st2)"
    with i5 obtain e where e: "is_done st2 e" "?obj = obj_of st2 e" by blast
    then have "e = c" by (auto simp: is_done_def obj_of_def)
    with e nd show False by simp
  qed
  have dm: "deps_map ?st' = deps_map st2 @ [(?obj, obj_of st2 ` set dcs)]"
    using update_fresh [OF fresh] by simp
  have done_iff: "is_done ?st' e \<longleftrightarrow> e = c \<or> is_done st2 e" for e
    using nd by (auto simp: is_done_def)
  have obj_same: "obj_of ?st' e = obj_of st2 e" if "e \<noteq> c" for e
    using that by (simp add: obj_of_def)
  have obj_c: "obj_of ?st' c = ?obj" by (simp add: obj_of_def)
  have done_ne: "e \<noteq> c" if "is_done st2 e" for e using that nd by auto
  have key_of_done: "obj_of st2 e \<in> fst ` set (deps_map st2)" if "is_done st2 e" for e
  proof -
    from i3 that obtain ds where "map_of (deps_map st2) (obj_of st2 e) = Some (obj_of st2 ` set ds)"
      by blast
    then show ?thesis by (auto dest!: map_of_SomeD intro: rev_image_eqI)
  qed
  show ?thesis
    unfolding resolver_inv_def
  proof (intro conjI)
    show "\<forall>e. class_name_to_object ?st' e = Some PyNone \<longrightarrow> e \<in> set parents"
      using i1 by auto
    show "\<forall>e d i. class_name_to_object ?st' e = Some (TestObj d i) \<longrightarrow>
            d = e \<and> i < length (instances ?st') \<and> instances ?st' ! i = e"
      using i2 idx by auto
    show "\<forall>e. is_done ?st' e \<longrightarrow>
        (\<exists>ds. dep_classes classes pm e = Inr ds \<and> (\<forall>d \<in> set ds. is_done ?st' d) \<and>
           map_of (deps_map ?st') (obj_of ?st' e) = Some (obj_of ?st' ` set ds))"
    proof (intro allI impI)
      fix e assume "is_done ?st' e"
      then consider "e = c" | "e \<noteq> c" "is_done st2 e" using done_iff by blast
      then show "\<exists>ds. dep_classes classes pm e = Inr ds \<and> (\<forall>d \<in> set ds. is_done ?st' d) \<and>
           map_of (deps_map ?st') (obj_of ?st' e) = Some (obj_of ?st' ` set ds)"
      proof cases
        case 1
        have a: "\<forall>d \<in> set dcs. is_done ?st' d" using alldone done_iff by blast
        have b: "obj_of ?st' ` set dcs = obj_of st2 ` set dcs"
          using alldone done_ne obj_same by (intro image_cong) auto
        have "map_of (deps_map ?st') ?obj = Some (obj_of st2 ` set dcs)"
          unfolding dm using fresh by (simp add: map_of_eq_None_iff [THEN iffD2] map_add_def)
        then show ?thesis using dcs a b 1 obj_c by auto
      next
        case 2
        from i3 2 obtain ds where ds: "dep_classes classes pm e = Inr ds"
          "\<forall>d \<in> set ds. is_done st2 d"
          "map_of (deps_map st2) (obj_of st2 e) = Some (obj_of st2 ` set ds)" by blast
        have a: "\<forall>d \<in> set ds. is_done ?st' d" using ds(2) done_iff by blast
        have b: "obj_of ?st' ` set ds = obj_of st2 ` set ds"
          using ds(2) done_ne obj_same by (intro image_cong) auto
        have "map_of (deps_map ?st') (obj_of st2 e) = Some (obj_of st2 ` set ds)"
          unfolding dm using ds(3) by (simp add: map_add_def)
        then show ?thesis using ds(1) a b obj_same [OF 2(1)] by auto
      qed
    qed
    show "topo (deps_map ?st')"
      unfolding dm using i4 fresh
    proof (rule topo_snoc)
      show "obj_of st2 ` set dcs \<subseteq> fst ` set (deps_map st2)"
        using alldone key_of_done by blast
    qed
    show "\<forall>obj \<in> fst ` set (deps_map ?st'). \<exists>e. is_done ?st' e \<and> obj = obj_of ?st' e"
    proof
      fix obj assume "obj \<in> fst ` set (deps_map ?st')"
      then consider "obj = ?obj" | "obj \<in> fst ` set (deps_map st2)" unfolding dm by auto
      then show "\<exists>e. is_done ?st' e \<and> obj = obj_of ?st' e"
      proof cases
        case 1
        have "is_done ?st' c" by (rule done_iff [THEN iffD2]) simp
        then show ?thesis using obj_c 1 by (intro exI [of _ c]) simp
      next
        case 2
        with i5 obtain e where e: "is_done st2 e" "obj = obj_of st2 e" by blast
        have "is_done ?st' e" using e(1) by (intro done_iff [THEN iffD2] disjI2)
        moreover have "obj_of ?st' e = obj_of st2 e" using done_ne [OF e(1)] by (rule obj_same)
        ultimately show ?thesis using e(2) by (intro exI [of _ e]) simp
      qed
    qed
    show "distinct (instances ?st')" using i6 by simp
    show "set (instances ?st') = dom (class_name_to_object ?st')"
      using i7 inprog by auto
  qed
qed

lemma chain_snoc:
  assumes "chain R xs" and "xs \<noteq> []" and "(last xs, x) \<in> R"
  shows "chain R (xs @ [x])"
  unfolding chain_def
proof (intro allI impI)
  fix i assume "Suc i < length (xs @ [x])"
  then consider "Suc i < length xs" | "Suc i = length xs" by fastforce
  then show "((xs @ [x]) ! i, (xs @ [x]) ! Suc i) \<in> R"
  proof cases
    case 1
    then show ?thesis using assms(1) by (simp add: chain_def nth_append)
  next
    case 2
    then have "i = length xs - 1" by simp
    then have "(xs @ [x]) ! i = last xs" "(xs @ [x]) ! Suc i = x"
      using assms(2) 2 by (simp_all add: nth_append last_conv_nth)
    then show ?thesis using assms(3) by simp
  qed
qed

lemma chain_rtrancl:
  assumes "chain R xs" and "j < length xs" and "i \<le> j"
  shows "(xs ! i, xs ! j) \<in> R\<^sup>*"
  using assms(3,2)
proof (induction j rule: dec_induct)
  case base
  then show ?case by simp
next
  case (step k)
  then have "(xs ! k, xs ! Suc k) \<in> R" using assms(1) by (simp add: chain_def)
  with step show ?case by auto
qed

lemma chain_cycle:
  assumes "chain R xs" and "xs \<noteq> []" and "d \<in> set xs" and "(last xs, d) \<in> R"
  shows "(d, d) \<in> R\<^sup>+"
proof -
  from assms(3) obtain i where i: "i < length xs" "xs ! i = d"
    by (auto simp: in_set_conv_nth)
  have "(xs ! i, xs ! (length xs - 1)) \<in> R\<^sup>*"
    using assms(1,2) i(1) by (intro chain_rtrancl) auto
  then have "(d, last xs) \<in> R\<^sup>*"
    using i(2) assms(2) by (simp add: last_conv_nth)
  with assms(4) show ?thesis by auto
qed

lemma dep_loop_correct:
  assumes IH: "\<And>st c parents. AddTest_pre classes pm U n st c parents \<Longrightarrow>
             AddTest_post classes pm U st c parents (AddTest n classes pm st c parents)"
    and inv: "resolver_inv classes pm st new_parents"
    and sub: "set dcs \<subseteq> U" "set new_parents \<subseteq> U"
    and dist: "distinct new_parents"
    and ch: "chain (class_rel classes pm) new_parents" "new_parents \<noteq> []"
    and edges: "\<forall>d \<in> set dcs. (last new_parents, d) \<in> class_rel classes pm"
    and fuel: "card U < n + length new_parents"
  shows "(dep_loop n classes pm st dcs new_parents acc = Inl CircularDepdendancyException \<and>
           (\<exists>d \<in> U. (d, d) \<in> (class_rel classes pm)\<^sup>+)) \<or>
         (\<exists>st'. dep_loop n classes pm st dcs new_parents acc = Inr (acc @ map (obj_of st') dcs, st') \<and>
            resolver_inv classes pm st' new_parents \<and> extends st st' \<and>
            (\<forall>d \<in> set dcs. is_done st' d))"
  using inv sub(1) edges
proof (induction dcs arbitrary: st acc)
  case Nil
  then show ?case by (simp add: extends_refl)
next
  case (Cons d rest)
  show ?case
  proof (cases "d \<in> set new_parents")
    case True
    have "(d, d) \<in> (class_rel classes pm)\<^sup>+"
      using ch True Cons.prems(3) by (intro chain_cycle [of _ new_parents]) auto
    moreover have "d \<in> U" using Cons.prems(2) by simp
    ultimately show ?thesis using True by auto
  next
    case False
    have "chain (class_rel classes pm) (new_parents @ [d])"
      using ch Cons.prems(3) by (intro chain_snoc) auto
    then have "AddTest_pre classes pm U n st d new_parents"
      unfolding AddTest_pre_def
      using Cons.prems(1,2) False sub(2) dist fuel by simp
    from IH [OF this] consider
      (circ) "AddTest n classes pm st d new_parents = Inl CircularDepdendancyException"
        "\<exists>d \<in> U. (d, d) \<in> (class_rel classes pm)\<^sup>+"
      | (ok) obj st1 where "AddTest n classes pm st d new_parents = Inr (obj, st1)"
        "resolver_inv classes pm st1 new_parents" "extends st st1" "is_done st1 d"
        "obj = obj_of st1 d"
      unfolding AddTest_post_def by blast
    then show ?thesis
    proof cases
      case circ
      then show ?thesis using False by simp
    next
      case ok
      have r: "set rest \<subseteq> U" "\<forall>d \<in> set rest. (last new_parents, d) \<in> class_rel classes pm"
        using Cons.prems(2,3) by auto
      from Cons.IH [OF ok(2) r, of "acc @ [obj]"] consider
        (circ2) "dep_loop n classes pm st1 rest new_parents (acc @ [obj]) = Inl CircularDepdendancyException"
          "\<exists>d \<in> U. (d, d) \<in> (class_rel classes pm)\<^sup>+"
        | (ok2) st' where
          "dep_loop n classes pm st1 rest new_parents (acc @ [obj]) =
             Inr ((acc @ [obj]) @ map (obj_of st') rest, st')"
          "resolver_inv classes pm st' new_parents" "extends st1 st'"
          "\<forall>d \<in> set rest. is_done st' d"
        by blast
      then show ?thesis
      proof cases
        case circ2
        then show ?thesis using False ok(1) by simp
      next
        case ok2
        from extends_done [OF ok2(3) ok(4)] have d': "is_done st' d" "obj_of st' d = obj"
          using ok(5) by auto
        have "dep_loop n classes pm st (d # rest) new_parents acc =
                Inr (acc @ map (obj_of st') (d # rest), st')"
          using False ok(1) ok2(1) d'(2) by simp
        moreover have "extends st st'" using ok(3) ok2(3) by (rule extends_trans)
        moreover have "\<forall>x \<in> set (d # rest). is_done st' x" using d'(1) ok2(4) by simp
        ultimately show ?thesis using ok2(2) by blast
      qed
    qed
  qed
qed

lemma AddTest_start:
  assumes inv: "resolver_inv classes pm st parents"
    and new: "class_name_to_object st c = None"
  shows "resolver_inv classes pm
           (st\<lparr>class_name_to_object := (class_name_to_object st)(c \<mapsto> PyNone),
               instances := instances st @ [c]\<rparr>)
           (parents @ [c])"
    (is "resolver_inv classes pm ?st1 (parents @ [c])")
proof -
  have
    i1: "\<forall>e. class_name_to_object st e = Some PyNone \<longrightarrow> e \<in> set parents" and
    i2: "\<forall>e d i. class_name_to_object st e = Some (TestObj d i) \<longrightarrow>
           d = e \<and> i < length (instances st) \<and> instances st ! i = e" and
    i3: "\<forall>e. is_done st e \<longrightarrow>
        (\<exists>ds. dep_classes classes pm e = Inr ds \<and> (\<forall>d \<in> set ds. is_done st d) \<and>
           map_of (deps_map st) (obj_of st e) = Some (obj_of st ` set ds))" and
    i4: "topo (deps_map st)" and
    i5: "\<forall>obj \<in> fst ` set (deps_map st). \<exists>e. is_done st e \<and> obj = obj_of st e" and
    i6: "distinct (instances st)" and
    i7: "set (instances st) = dom (class_name_to_object st)"
    by (insert inv [unfolded resolver_inv_def], (elim conjE, assumption)+)
  have done_iff: "is_done ?st1 e \<longleftrightarrow> is_done st e" for e
    using new by (auto simp: is_done_def)
  have done_ne: "e \<noteq> c" if "is_done st e" for e
    using that new by (auto simp: is_done_def)
  have obj_same: "obj_of ?st1 e = obj_of st e" if "e \<noteq> c" for e
    using that by (simp add: obj_of_def)
  show ?thesis
    unfolding resolver_inv_def
  proof (intro conjI)
    show "\<forall>e. class_name_to_object ?st1 e = Some PyNone \<longrightarrow> e \<in> set (parents @ [c])"
      using i1 by auto
    show "\<forall>e d i. class_name_to_object ?st1 e = Some (TestObj d i) \<longrightarrow>
            d = e \<and> i < length (instances ?st1) \<and> instances ?st1 ! i = e"
    proof (intro allI impI)
      fix e d i assume "class_name_to_object ?st1 e = Some (TestObj d i)"
      then have "class_name_to_object st e = Some (TestObj d i)"
        by (auto split: if_splits)
      with i2 have "d = e" "i < length (instances st)" "instances st ! i = e" by blast+
      then show "d = e \<and> i < length (instances ?st1) \<and> instances ?st1 ! i = e"
        by (simp add: nth_append)
    qed
    show "\<forall>e. is_done ?st1 e \<longrightarrow>
        (\<exists>ds. dep_classes classes pm e = Inr ds \<and> (\<forall>d \<in> set ds. is_done ?st1 d) \<and>
           map_of (deps_map ?st1) (obj_of ?st1 e) = Some (obj_of ?st1 ` set ds))"
    proof (intro allI impI)
      fix e assume "is_done ?st1 e"
      then have e: "is_done st e" by (simp only: done_iff)
      with i3 obtain ds where ds: "dep_classes classes pm e = Inr ds"
        "\<forall>d \<in> set ds. is_done st d"
        "map_of (deps_map st) (obj_of st e) = Some (obj_of st ` set ds)" by blast
      have a: "\<forall>d \<in> set ds. is_done ?st1 d" using ds(2) by (simp only: done_iff)
      have b: "obj_of ?st1 ` set ds = obj_of st ` set ds"
        using ds(2) done_ne obj_same by (intro image_cong) auto
      have c: "obj_of ?st1 e = obj_of st e" using done_ne [OF e] by (rule obj_same)
      show "\<exists>ds. dep_classes classes pm e = Inr ds \<and> (\<forall>d \<in> set ds. is_done ?st1 d) \<and>
           map_of (deps_map ?st1) (obj_of ?st1 e) = Some (obj_of ?st1 ` set ds)"
        using ds(1,3) a b c by (intro exI [of _ ds]) simp
    qed
    show "topo (deps_map ?st1)" using i4 by simp
    show "\<forall>obj \<in> fst ` set (deps_map ?st1). \<exists>e. is_done ?st1 e \<and> obj = obj_of ?st1 e"
    proof
      fix obj assume "obj \<in> fst ` set (deps_map ?st1)"
      then have "obj \<in> fst ` set (deps_map st)" by simp
      with i5 obtain e where e: "is_done st e" "obj = obj_of st e" by blast
      have "is_done ?st1 e" using e(1) by (simp only: done_iff)
      moreover have "obj_of ?st1 e = obj_of st e" using done_ne [OF e(1)] by (rule obj_same)
      ultimately show "\<exists>e. is_done ?st1 e \<and> obj = obj_of ?st1 e"
        using e(2) by (intro exI [of _ e]) simp
    qed
    show "distinct (instances ?st1)" using i6 i7 new by auto
    show "set (instances ?st1) = dom (class_name_to_object ?st1)" using i7 by auto
  qed
qed

lemma AddTest_correct:
  assumes U: "universe classes pm U"
  shows "AddTest_pre classes pm U n st c parents \<Longrightarrow>
           AddTest_post classes pm U st c parents (AddTest n classes pm st c parents)"
proof (induction n arbitrary: st c parents)
  case 0
  then have p: "c \<notin> set parents" "c \<in> U" "set parents \<subseteq> U" "distinct parents"
    "card U < length parents"
    by (simp_all add: AddTest_pre_def)
  have "finite U" using U by (simp add: universe_def)
  moreover have "set parents \<subset> U" using p(1,2,3) by auto
  ultimately have "card (set parents) < card U" by (rule psubset_card_mono)
  then have "length parents < card U" using p(4) by (simp add: distinct_card)
  with p(5) show ?case by simp
next
  case (Suc n)
  from Suc.prems have inv: "resolver_inv classes pm st parents"
    and notin: "c \<notin> set parents" and cU: "c \<in> U" and pU: "set parents \<subseteq> U"
    and dist: "distinct parents" and ch: "chain (class_rel classes pm) (parents @ [c])"
    and fuel: "card U < Suc n + length parents"
    by (simp_all add: AddTest_pre_def)
  have
    i1: "\<forall>e. class_name_to_object st e = Some PyNone \<longrightarrow> e \<in> set parents" and
    i2: "\<forall>e d i. class_name_to_object st e = Some (TestObj d i) \<longrightarrow>
           d = e \<and> i < length (instances st) \<and> instances st ! i = e"
    by (insert inv [unfolded resolver_inv_def], (elim conjE, assumption)+)
  show ?case
  proof (cases "class_name_to_object st c")
    case (Some obj)
    have "obj \<noteq> PyNone" using i1 Some notin by auto
    then obtain d i where "obj = TestObj d i" by (cases obj) auto
    with i2 Some have d: "is_done st c" "obj = obj_of st c"
      by (auto simp: is_done_def obj_of_def)
    then show ?thesis
      unfolding AddTest_post_def using Some inv by (auto simp: extends_refl)
  next
    case None
    from U cU obtain dcs where dcs: "dep_classes classes pm c = Inr dcs" "set dcs \<subseteq> U"
      by (auto simp: universe_def)
    let ?st1 = "st\<lparr>class_name_to_object := (class_name_to_object st)(c \<mapsto> PyNone),
                    instances := instances st @ [c]\<rparr>"
    let ?i0 = "length (instances st)"
    have inv1: "resolver_inv classes pm ?st1 (parents @ [c])"
      using inv None by (rule AddTest_start)
    have edges: "\<forall>d \<in> set dcs. (last (parents @ [c]), d) \<in> class_rel classes pm"
      using dcs(1) by (simp add: class_rel_def)
    have "(dep_loop n classes pm ?st1 dcs (parents @ [c]) [] = Inl CircularDepdendancyException \<and>
             (\<exists>d \<in> U. (d, d) \<in> (class_rel classes pm)\<^sup>+)) \<or>
          (\<exists>st'. dep_loop n classes pm ?st1 dcs (parents @ [c]) [] =
                    Inr ([] @ map (obj_of st') dcs, st') \<and>
             resolver_inv classes pm st' (parents @ [c]) \<and> extends ?st1 st' \<and>
             (\<forall>d \<in> set dcs. is_done st' d))"
      using Suc.IH inv1 dcs(2) _ _ ch _ edges
    proof (rule dep_loop_correct)
      show "set (parents @ [c]) \<subseteq> U" using pU cU by simp
      show "distinct (parents @ [c])" using dist notin by simp
      show "parents @ [c] \<noteq> []" by simp
      show "card U < n + length (parents @ [c])" using fuel by simp
    qed
    then consider
      (circ) "dep_loop n classes pm ?st1 dcs (parents @ [c]) [] = Inl CircularDepdendancyException"
        "\<exists>d \<in> U. (d, d) \<in> (class_rel classes pm)\<^sup>+"
      | (ok) st2 where
        "dep_loop n classes pm ?st1 dcs (parents @ [c]) [] = Inr (map (obj_of st2) dcs, st2)"
        "resolver_inv classes pm st2 (parents @ [c])" "extends ?st1 st2"
        "\<forall>d \<in> set dcs. is_done st2 d"
      by auto
    then show ?thesis
    proof cases
      case circ
      then show ?thesis
        unfolding AddTest_post_def using None dcs(1) by simp
    next
      case ok
      let ?obj = "TestObj c ?i0"
      let ?st' = "st2\<lparr>class_name_to_object := (class_name_to_object st2)(c \<mapsto> ?obj),
                      deps_map := AList.update ?obj (set (map (obj_of st2) dcs)) (deps_map st2)\<rparr>"
      have
        e1: "\<forall>e. is_done ?st1 e \<longrightarrow> class_name_to_object st2 e = class_name_to_object ?st1 e" and
        e2: "\<forall>e. class_name_to_object st2 e = Some PyNone \<longleftrightarrow>
                  class_name_to_object ?st1 e = Some PyNone" and
        e3: "\<exists>more. instances st2 = instances ?st1 @ more"
        by (insert ok(3) [unfolded extends_def], (elim conjE, assumption)+)
      from e2 have inprog: "class_name_to_object st2 c = Some PyNone" by simp
      from e3 obtain more where more: "instances st2 = (instances st @ [c]) @ more" by auto
      have idx: "?i0 < length (instances st2)" "instances st2 ! ?i0 = c"
        unfolding more by (simp_all add: nth_append)
      have inv': "resolver_inv classes pm ?st' parents"
        using ok(2) inprog notin dcs(1) ok(4) idx by (rule AddTest_finish)
      have res: "AddTest (Suc n) classes pm st c parents = Inr (?obj, ?st')"
        using None dcs(1) ok(1) by simp
      have done_st: "e \<noteq> c \<and> is_done ?st1 e" if "is_done st e" for e
        using that None by (auto simp: is_done_def)
      have ext: "extends st ?st'"
        unfolding extends_def
      proof (intro conjI allI impI)
        fix e assume "is_done st e"
        from done_st [OF this] e1 show "class_name_to_object ?st' e = class_name_to_object st e"
          by auto
      next
        fix e
        show "class_name_to_object ?st' e = Some PyNone \<longleftrightarrow> class_name_to_object st e = Some PyNone"
          using e2 [rule_format, of e] None by (cases "e = c") auto
      next
        show "\<exists>more. instances ?st' = instances st @ more"
          using more by simp
      qed
      have "is_done ?st' c" by (simp add: is_done_def)
      moreover have "?obj = obj_of ?st' c" by (simp add: obj_of_def)
      ultimately show ?thesis
        unfolding AddTest_post_def using res inv' ext by blast
    qed
  qed
qed

lemma resolver_inv_init: "resolver_inv classes pm resolver_init []"
  by (simp add: resolver_inv_def resolver_init_def is_done_def topo_def)

lemma InstantiateTests_loop_correct:
  assumes U: "universe classes pm U" and fuel: "card U < n"
  shows "resolver_inv classes pm st [] \<Longrightarrow> set cs \<subseteq> U \<Longrightarrow>
     (InstantiateTests_loop n classes pm st cs = Inl CircularDepdendancyException \<and>
        (\<exists>d \<in> U. (d, d) \<in> (class_rel classes pm)\<^sup>+)) \<or>
     (\<exists>st'. InstantiateTests_loop n classes pm st cs = Inr st' \<and>
        resolver_inv classes pm st' [] \<and> extends st st' \<and> (\<forall>c \<in> set cs. is_done st' c))"
proof (induction cs arbitrary: st)
  case Nil
  then show ?case by (simp add: extends_refl)
next
  case (Cons c cs)
  have "AddTest_pre classes pm U n st c []"
    using Cons.prems fuel by (simp add: AddTest_pre_def chain_def)
  from AddTest_correct [OF U this] consider
    (circ) "AddTest n classes pm st c [] = Inl CircularDepdendancyException"
      "\<exists>d \<in> U. (d, d) \<in> (class_rel classes pm)\<^sup>+"
    | (ok) obj st1 where "AddTest n classes pm st c [] = Inr (obj, st1)"
      "resolver_inv classes pm st1 []" "extends st st1" "is_done st1 c"
    unfolding AddTest_post_def by blast
  then show ?case
  proof cases
    case circ
    then show ?thesis by simp
  next
    case ok
    have "set cs \<subseteq> U" using Cons.prems(2) by simp
    from Cons.IH [OF ok(2) this] consider
      (circ2) "InstantiateTests_loop n classes pm st1 cs = Inl CircularDepdendancyException"
        "\<exists>d \<in> U. (d, d) \<in> (class_rel classes pm)\<^sup>+"
      | (ok2) st' where "InstantiateTests_loop n classes pm st1 cs = Inr st'"
        "resolver_inv classes pm st' []" "extends st1 st'" "\<forall>c \<in> set cs. is_done st' c"
      by blast
    then show ?thesis
    proof cases
      case circ2
      then show ?thesis using ok(1) by simp
    next
      case ok2
      have "is_done st' c" using extends_done [OF ok2(3) ok(4)] by simp
      moreover have "extends st st'" using ok(3) ok2(3) by (rule extends_trans)
      ultimately show ?thesis using ok(1) ok2(1,2,4) by simp
    qed
  qed
qed

lemma InstantiateTests_correct:
  assumes "universe classes pm U" and "card U < n" and "set selected \<subseteq> U"
  shows "(InstantiateTests n classes pm selected = Inl CircularDepdendancyException \<and>
            (\<exists>d \<in> U. (d, d) \<in> (class_rel classes pm)\<^sup>+)) \<or>
         (\<exists>st. InstantiateTests n classes pm selected = Inr st \<and>
            resolver_inv classes pm st [] \<and> (\<forall>c \<in> set selected. is_done st c))"
  using InstantiateTests_loop_correct [OF assms(1,2) resolver_inv_init assms(3)]
  unfolding InstantiateTests_def by blast

lemma takeWhile_index:
  "distinct xs \<Longrightarrow> i < length xs \<Longrightarrow> length (takeWhile (\<lambda>x. x \<noteq> xs ! i) xs) = i"
proof -
  assume a: "distinct xs" "i < length xs"
  have "takeWhile (\<lambda>x. x \<noteq> xs ! i) xs = take i xs"
    using a by (intro takeWhile_eq_take_P_nth) (auto simp: nth_eq_iff_index_eq)
  then show ?thesis using a by simp
qed

lemma topo_acyclic:
  assumes "topo al"
  shows "acyclic (dep_rel al)"
proof (rule acyclicI_order [where f = "\<lambda>x. length (takeWhile (\<lambda>k. k \<noteq> x) (map fst al))"])
  fix t d assume "(t, d) \<in> dep_rel al"
  then obtain ds where ds: "(t, ds) \<in> set al" "d \<in> ds" by (auto simp: dep_rel_def)
  then obtain i where i: "i < length al" "al ! i = (t, ds)" by (auto simp: in_set_conv_nth)
  from assms have dist: "distinct (map fst al)"
    and sub: "snd (al ! i) \<subseteq> fst ` set (take i al)"
    using i(1) by (auto simp: topo_def)
  have ti: "length (takeWhile (\<lambda>k. k \<noteq> t) (map fst al)) = i"
    using takeWhile_index [OF dist, of i] i by simp
  have "snd (al ! i) = ds" using i(2) by simp
  with sub ds(2) have "d \<in> fst ` set (take i al)" by blast
  then have "d \<in> set (take i (map fst al))"
    by (simp add: take_map)
  then obtain j where j: "j < i" "map fst al ! j = d"
    using i(1) by (auto simp: in_set_conv_nth)
  have "length (takeWhile (\<lambda>k. k \<noteq> d) (map fst al)) = j"
    using takeWhile_index [OF dist, of j] j i(1) by simp
  then show "length (takeWhile (\<lambda>k. k \<noteq> d) (map fst al))
           < length (takeWhile (\<lambda>k. k \<noteq> t) (map fst al))"
    using ti j(1) by simp
qed

lemma topo_closed:
  assumes "topo al" and "(t, ds) \<in> set al"
  shows "ds \<subseteq> fst ` set al"
proof -
  from assms(2) obtain i where i: "i < length al" "al ! i = (t, ds)"
    by (auto simp: in_set_conv_nth)
  then have "snd (al ! i) = ds" by simp
  moreover have "snd (al ! i) \<subseteq> fst ` set (take i al)"
    using assms(1) i(1) by (simp add: topo_def)
  ultimately have "ds \<subseteq> fst ` set (take i al)" by simp
  then show ?thesis by (meson image_mono set_take_subset subset_trans)
qed

lemma done_edge:
  assumes inv: "resolver_inv classes pm st parents"
    and d: "is_done st c" and e: "(c, d) \<in> class_rel classes pm"
  shows "is_done st d \<and> (obj_of st c, obj_of st d) \<in> dep_rel (deps_map st)"
proof -
  have i3: "\<forall>e. is_done st e \<longrightarrow>
        (\<exists>ds. dep_classes classes pm e = Inr ds \<and> (\<forall>d \<in> set ds. is_done st d) \<and>
           map_of (deps_map st) (obj_of st e) = Some (obj_of st ` set ds))"
    by (insert inv [unfolded resolver_inv_def], (elim conjE, assumption)+)
  from i3 d obtain ds where ds: "dep_classes classes pm c = Inr ds"
    "\<forall>d \<in> set ds. is_done st d"
    "map_of (deps_map st) (obj_of st c) = Some (obj_of st ` set ds)" by blast
  from e ds(1) have "d \<in> set ds" by (simp add: class_rel_def)
  moreover have "(obj_of st c, obj_of st ` set ds) \<in> set (deps_map st)"
    using ds(3) by (rule map_of_SomeD)
  ultimately show ?thesis using ds(2) by (auto simp: dep_rel_def)
qed

lemma done_trancl:
  assumes inv: "resolver_inv classes pm st parents"
  shows "(c, d) \<in> (class_rel classes pm)\<^sup>+ \<Longrightarrow> is_done st c \<Longrightarrow>
           is_done st d \<and> (obj_of st c, obj_of st d) \<in> (dep_rel (deps_map st))\<^sup>+"
proof (induction rule: trancl_induct)
  case (base y)
  then show ?case using done_edge [OF inv] by blast
next
  case (step y z)
  then have "is_done st y" "(obj_of st c, obj_of st y) \<in> (dep_rel (deps_map st))\<^sup>+" by auto
  moreover from done_edge [OF inv this(1) step(2)]
  have "is_done st z" "(obj_of st y, obj_of st z) \<in> dep_rel (deps_map st)" by auto
  ultimately show ?case by auto
qed

lemma done_rtrancl:
  assumes inv: "resolver_inv classes pm st parents"
  shows "(c, d) \<in> (class_rel classes pm)\<^sup>* \<Longrightarrow> is_done st c \<Longrightarrow> is_done st d"
  by (metis done_trancl [OF inv] rtranclD)

lemma done_no_cycle:
  assumes inv: "resolver_inv classes pm st parents" and "is_done st d"
  shows "(d, d) \<notin> (class_rel classes pm)\<^sup>+"
proof
  assume "(d, d) \<in> (class_rel classes pm)\<^sup>+"
  from done_trancl [OF inv this assms(2)]
  have "(obj_of st d, obj_of st d) \<in> (dep_rel (deps_map st))\<^sup>+" by simp
  moreover have "acyclic (dep_rel (deps_map st))"
    using inv by (intro topo_acyclic) (simp add: resolver_inv_def)
  ultimately show False by (simp add: acyclic_def)
qed

lemma InstantiateTests_cycle:
  assumes U: "universe classes pm U" and fuel: "card U < n" and sel: "set selected \<subseteq> U"
    and cyc: "c \<in> set selected" "(c, d) \<in> (class_rel classes pm)\<^sup>*"
       "(d, d) \<in> (class_rel classes pm)\<^sup>+"
  shows "InstantiateTests n classes pm selected = Inl CircularDepdendancyException"
proof -
  from InstantiateTests_correct [OF U fuel sel] consider
    (circ) "InstantiateTests n classes pm selected = Inl CircularDepdendancyException"
    | (ok) st where "InstantiateTests n classes pm selected = Inr st"
      "resolver_inv classes pm st []" "\<forall>c \<in> set selected. is_done st c"
    by blast
  then show ?thesis
  proof cases
    case circ
    then show ?thesis .
  next
    case ok
    have "is_done st d" using done_rtrancl [OF ok(2) cyc(2)] ok(3) cyc(1) by simp
    from done_no_cycle [OF ok(2) this] cyc(3) show ?thesis by simp
  qed
qed

lemma InstantiateTests_acyclic:
  assumes U: "universe classes pm U" and fuel: "card U < n" and sel: "set selected \<subseteq> U"
    and acyc: "\<forall>d \<in> U. (d, d) \<notin> (class_rel classes pm)\<^sup>+"
  shows "\<exists>st. InstantiateTests n classes pm selected = Inr st \<and>
            resolver_inv classes pm st [] \<and> (\<forall>c \<in> set selected. is_done st c)"
  using InstantiateTests_correct [OF U fuel sel] acyc by blast

subsection \<open>Resolution and scheduling together\<close>

lemma resolved_graph_deps_map:
  assumes "resolver_inv classes pm st parents"
  shows "resolved_graph (deps_map st)"
proof -
  have t: "topo (deps_map st)"
    by (insert assms [unfolded resolver_inv_def], (elim conjE, assumption)+)
  then have "distinct (map fst (deps_map st))" by (simp add: topo_def)
  moreover have "\<forall>(t, ds) \<in> set (deps_map st). ds \<subseteq> fst ` set (deps_map st)"
    using topo_closed [OF t] by blast
  moreover have "acyclic (dep_rel (deps_map st))" using t by (rule topo_acyclic)
  ultimately show ?thesis by (simp add: resolved_graph_def)
qed

lemma count_list_distinct:
  "distinct xs \<Longrightarrow> x \<in> set xs \<Longrightarrow> count_list xs x = 1"
  by (induction xs) (auto simp: count_list_0_iff)

lemma filter_unique:
  "distinct xs \<Longrightarrow> x \<in> set xs \<Longrightarrow> (\<forall>y \<in> set xs. P y \<longleftrightarrow> y = x) \<Longrightarrow> filter P xs = [x]"
proof (induction xs)
  case Nil
  then show ?case by simp
next
  case (Cons y ys)
  show ?case
  proof (cases "y = x")
    case True
    then have "\<forall>z \<in> set ys. \<not> P z" using Cons.prems by auto
    then have "filter P ys = []" by (simp add: filter_empty_conv)
    then show ?thesis using True Cons.prems(3) by simp
  next
    case False
    then show ?thesis using Cons by auto
  qed
qed

lemma done_instance:
  assumes inv: "resolver_inv classes pm st parents" and d: "is_done st c"
  shows "\<exists>i. obj_of st c = TestObj c i \<and> class_name_to_object st c = Some (TestObj c i) \<and>
           count_list (instances st) c = 1 \<and>
           filter (\<lambda>obj. class_of obj = Some c) (map fst (deps_map st)) = [TestObj c i]"
proof -
  have
    i3: "\<forall>e. is_done st e \<longrightarrow>
        (\<exists>ds. dep_classes classes pm e = Inr ds \<and> (\<forall>d \<in> set ds. is_done st d) \<and>
           map_of (deps_map st) (obj_of st e) = Some (obj_of st ` set ds))" and
    i4: "topo (deps_map st)" and
    i5: "\<forall>obj \<in> fst ` set (deps_map st). \<exists>e. is_done st e \<and> obj = obj_of st e" and
    i6: "distinct (instances st)" and
    i7: "set (instances st) = dom (class_name_to_object st)"
    by (insert inv [unfolded resolver_inv_def], (elim conjE, assumption)+)
  from d obtain i where i: "class_name_to_object st c = Some (TestObj c i)"
    by (auto simp: is_done_def)
  then have o: "obj_of st c = TestObj c i" by (simp add: obj_of_def)
  have "c \<in> set (instances st)" using i i7 by auto
  with i6 have cnt: "count_list (instances st) c = 1" by (rule count_list_distinct)
  from i3 d obtain ds where "map_of (deps_map st) (obj_of st c) = Some (obj_of st ` set ds)"
    by blast
  then have key: "TestObj c i \<in> set (map fst (deps_map st))"
    unfolding o by (auto dest!: map_of_SomeD intro: rev_image_eqI)
  have uniq: "\<forall>k \<in> set (map fst (deps_map st)). class_of k = Some c \<longleftrightarrow> k = TestObj c i"
  proof
    fix k assume "k \<in> set (map fst (deps_map st))"
    with i5 obtain e where e: "is_done st e" "k = obj_of st e" by auto
    then obtain j where j: "class_name_to_object st e = Some (TestObj e j)"
      by (auto simp: is_done_def)
    then have k: "k = TestObj e j" using e(2) by (simp add: obj_of_def)
    show "class_of k = Some c \<longleftrightarrow> k = TestObj c i"
      using k j i by auto
  qed
  have "distinct (map fst (deps_map st))" using i4 by (simp add: topo_def)
  from filter_unique [OF this key uniq] show ?thesis using i o cnt by blast
qed

lemma done_edge_deps:
  assumes inv: "resolver_inv classes pm st parents"
    and d: "is_done st c" and e: "(c, d) \<in> class_rel classes pm"
  shows "\<exists>ds. map_of (deps_map st) (obj_of st c) = Some ds \<and> obj_of st d \<in> ds"
proof -
  have i3: "\<forall>e. is_done st e \<longrightarrow>
        (\<exists>ds. dep_classes classes pm e = Inr ds \<and> (\<forall>d \<in> set ds. is_done st d) \<and>
           map_of (deps_map st) (obj_of st e) = Some (obj_of st ` set ds))"
    by (insert inv [unfolded resolver_inv_def], (elim conjE, assumption)+)
  from i3 d obtain ds where ds: "dep_classes classes pm c = Inr ds"
    "map_of (deps_map st) (obj_of st c) = Some (obj_of st ` set ds)" by blast
  from e ds(1) have "d \<in> set ds" by (simp add: class_rel_def)
  then show ?thesis using ds(2) by blast
qed

text \<open>
  Claim C9. Take any finite set \<open>U\<close> of classes that is closed under dependencies, with a
  producer for every required property, no cycle, and fewer classes than the recursion
  limit, and a selection from it. For every diamond in it (a selected class \<open>c\<close> that
  depends on \<open>a\<close> and \<open>b\<close>, which both depend on \<open>d\<close>), resolution succeeds and constructs
  exactly one instance of \<open>d\<close>; that instance is the only key of its class in
  \<^verbatim>\<open>deps_map\<close>; the dependency sets recorded for the instances of \<open>a\<close> and of \<open>b\<close> both
  hold it; and it stands exactly once in the list that the topological sort returns,
  whatever the order of \<^verbatim>\<open>set.pop()\<close>.
\<close>

theorem C9_diamond_one_shared_instance:
  assumes U: "universe classes pm U" and fuel: "card U < n" and sel: "set selected \<subseteq> U"
    and acyc: "\<forall>x \<in> U. (x, x) \<notin> (class_rel classes pm)\<^sup>+"
    and c: "c \<in> set selected"
    and ca: "(c, a) \<in> class_rel classes pm" and cb: "(c, b) \<in> class_rel classes pm"
    and ad: "(a, d) \<in> class_rel classes pm" and bd: "(b, d) \<in> class_rel classes pm"
  shows "\<exists>st ia ib i dsa dsb.
           InstantiateTests n classes pm selected = Inr st \<and>
           count_list (instances st) d = 1 \<and>
           filter (\<lambda>obj. class_of obj = Some d) (map fst (deps_map st)) = [TestObj d i] \<and>
           map_of (deps_map st) (TestObj a ia) = Some dsa \<and> TestObj d i \<in> dsa \<and>
           map_of (deps_map st) (TestObj b ib) = Some dsb \<and> TestObj d i \<in> dsb \<and>
           (\<forall>pick. \<exists>tests. TopologicalSort pick (deps_map st) = Inr tests \<and>
                      count_list tests (TestObj d i) = 1)"
proof -
  from InstantiateTests_acyclic [OF U fuel sel acyc] obtain st where
    r: "InstantiateTests n classes pm selected = Inr st"
    and inv: "resolver_inv classes pm st []"
    and dn: "\<forall>x \<in> set selected. is_done st x" by blast
  have dc: "is_done st c" using dn c by simp
  have da: "is_done st a" using done_edge [OF inv dc ca] by simp
  have db: "is_done st b" using done_edge [OF inv dc cb] by simp
  have dd: "is_done st d" using done_edge [OF inv da ad] by simp
  from done_instance [OF inv dd] obtain i where
    i: "obj_of st d = TestObj d i" "count_list (instances st) d = 1"
       "filter (\<lambda>obj. class_of obj = Some d) (map fst (deps_map st)) = [TestObj d i]"
    by blast
  from done_instance [OF inv da] obtain ia where ia: "obj_of st a = TestObj a ia" by blast
  from done_instance [OF inv db] obtain ib where ib: "obj_of st b = TestObj b ib" by blast
  from done_edge_deps [OF inv da ad] obtain dsa where
    dsa: "map_of (deps_map st) (TestObj a ia) = Some dsa" "TestObj d i \<in> dsa"
    unfolding ia i(1) by blast
  from done_edge_deps [OF inv db bd] obtain dsb where
    dsb: "map_of (deps_map st) (TestObj b ib) = Some dsb" "TestObj d i \<in> dsb"
    unfolding ib i(1) by blast
  have key: "TestObj d i \<in> fst ` set (deps_map st)"
  proof -
    have "TestObj d i \<in> set (filter (\<lambda>obj. class_of obj = Some d) (map fst (deps_map st)))"
      unfolding i(3) by simp
    then show ?thesis by simp
  qed
  have g: "resolved_graph (deps_map st)" using inv by (rule resolved_graph_deps_map)
  have sorted: "\<exists>tests. TopologicalSort pick (deps_map st) = Inr tests \<and>
                  count_list tests (TestObj d i) = 1" for pick
  proof -
    from TopologicalSort_complete [OF g, of pick] obtain tests where
      t: "TopologicalSort pick (deps_map st) = Inr tests" "distinct tests"
         "set tests = fst ` set (deps_map st)" by blast
    have "count_list tests (TestObj d i) = 1"
      using t(2) key unfolding t(3) [symmetric] by (rule count_list_distinct)
    with t(1) show ?thesis by blast
  qed
  show ?thesis
    using r i(2,3) dsa dsb sorted by blast
qed

lemma diamond_property_map:
  "property_map diamond_runner = [(''a'', Test_A), (''b'', Test_B), (''d'', Test_D)]"
  by code_simp

lemma diamond_dep_classes:
  "dep_classes diamond_classes (property_map diamond_runner) Test_A = Inr [Test_D]"
  "dep_classes diamond_classes (property_map diamond_runner) Test_B = Inr [Test_D]"
  "dep_classes diamond_classes (property_map diamond_runner) Test_C = Inr [Test_A, Test_B]"
  "dep_classes diamond_classes (property_map diamond_runner) Test_D = Inr []"
  "dep_classes diamond_classes (property_map diamond_runner) Test_X = Inr []"
  unfolding diamond_property_map by (simp_all add: dep_classes_def diamond_classes_def)

lemma no_cycle_by_rank:
  assumes "\<And>x y. (x, y) \<in> R \<Longrightarrow> f y < (f x :: nat)"
  shows "(x, x) \<notin> R\<^sup>+"
proof -
  have "acyclic R" using assms by (rule acyclicI_order)
  then show ?thesis by (simp add: acyclic_def)
qed

lemma diamond_universe:
  "universe diamond_classes (property_map diamond_runner) {Test_A, Test_B, Test_C, Test_D}"
  by (simp add: universe_def diamond_dep_classes)

lemma diamond_no_cycle:
  "(x, x) \<notin> (class_rel diamond_classes (property_map diamond_runner))\<^sup>+"
proof (rule no_cycle_by_rank)
  fix x y
  assume "(x, y) \<in> class_rel diamond_classes (property_map diamond_runner)"
  then show "(case y of Test_C \<Rightarrow> 3 | Test_A \<Rightarrow> 2 | Test_B \<Rightarrow> 2 | Test_D \<Rightarrow> 1 | Test_X \<Rightarrow> 0)
           < (case x of Test_C \<Rightarrow> 3 | Test_A \<Rightarrow> 2 | Test_B \<Rightarrow> 2 | Test_D \<Rightarrow> 1 | Test_X \<Rightarrow> (0::nat))"
    by (cases x) (auto simp: class_rel_def diamond_dep_classes)
qed

text \<open>
  On the diamond, with all four classes selected: \<open>D\<close> is constructed once (third, after
  \<open>C\<close> and \<open>A\<close>), the sets of \<open>A\<close> and \<open>B\<close> hold that one object, and it stands once in the
  sorted list.
\<close>

theorem C9_witness:
  "universe diamond_classes (property_map diamond_runner) {Test_A, Test_B, Test_C, Test_D} \<and>
   (Test_C, Test_A) \<in> class_rel diamond_classes (property_map diamond_runner) \<and>
   (Test_C, Test_B) \<in> class_rel diamond_classes (property_map diamond_runner) \<and>
   (Test_A, Test_D) \<in> class_rel diamond_classes (property_map diamond_runner) \<and>
   (Test_B, Test_D) \<in> class_rel diamond_classes (property_map diamond_runner) \<and>
   (\<exists>st. InstantiateTests 10 diamond_classes (property_map diamond_runner)
            (all_tests diamond_runner) = Inr st \<and>
      instances st = [Test_C, Test_A, Test_D, Test_B] \<and>
      deps_map st = [(TestObj Test_D 2, {}), (TestObj Test_A 1, {TestObj Test_D 2}),
                     (TestObj Test_B 3, {TestObj Test_D 2}),
                     (TestObj Test_C 0, {TestObj Test_A 1, TestObj Test_B 3})] \<and>
      count_list (instances st) Test_D = 1 \<and>
      TopologicalSort (\<lambda>k. 0) (deps_map st) =
        Inr [TestObj Test_D 2, TestObj Test_A 1, TestObj Test_B 3, TestObj Test_C 0] \<and>
      (\<forall>pick. \<exists>tests. TopologicalSort pick (deps_map st) = Inr tests \<and>
                 count_list tests (TestObj Test_D 2) = 1))"
proof -
  let ?pm = "property_map diamond_runner"
  let ?U = "{Test_A, Test_B, Test_C, Test_D}"
  have sel: "all_tests diamond_runner = [Test_C, Test_A, Test_B, Test_D]" by code_simp
  have e: "(Test_C, Test_A) \<in> class_rel diamond_classes ?pm"
    "(Test_C, Test_B) \<in> class_rel diamond_classes ?pm"
    "(Test_A, Test_D) \<in> class_rel diamond_classes ?pm"
    "(Test_B, Test_D) \<in> class_rel diamond_classes ?pm"
    by (simp_all add: class_rel_def diamond_dep_classes)
  have h1: "card ?U < 10" by simp
  have h2: "set (all_tests diamond_runner) \<subseteq> ?U" unfolding sel by simp
  have h3: "\<forall>x \<in> ?U. (x, x) \<notin> (class_rel diamond_classes ?pm)\<^sup>+"
    using diamond_no_cycle by blast
  have h4: "Test_C \<in> set (all_tests diamond_runner)" unfolding sel by simp
  from C9_diamond_one_shared_instance [OF diamond_universe h1 h2 h3 h4 e]
  obtain st ia ib i dsa dsb where
    r: "InstantiateTests 10 diamond_classes ?pm (all_tests diamond_runner) = Inr st"
    and cnt: "count_list (instances st) Test_D = 1"
    and f: "filter (\<lambda>obj. class_of obj = Some Test_D) (map fst (deps_map st)) = [TestObj Test_D i]"
    and s: "\<forall>pick. \<exists>tests. TopologicalSort pick (deps_map st) = Inr tests \<and>
              count_list tests (TestObj Test_D i) = 1"
    by blast
  have v: "map_sum id (\<lambda>st. (instances st, deps_map st))
             (InstantiateTests 10 diamond_classes ?pm (all_tests diamond_runner)) =
           Inr ([Test_C, Test_A, Test_D, Test_B],
                [(TestObj Test_D 2, {}), (TestObj Test_A 1, {TestObj Test_D 2}),
                 (TestObj Test_B 3, {TestObj Test_D 2}),
                 (TestObj Test_C 0, {TestObj Test_A 1, TestObj Test_B 3})])"
    by code_simp
  then have st: "instances st = [Test_C, Test_A, Test_D, Test_B]"
    "deps_map st = [(TestObj Test_D 2, {}), (TestObj Test_A 1, {TestObj Test_D 2}),
                    (TestObj Test_B 3, {TestObj Test_D 2}),
                    (TestObj Test_C 0, {TestObj Test_A 1, TestObj Test_B 3})]"
    unfolding r by simp_all
  have i: "i = 2" using f unfolding st by simp
  have t: "TopologicalSort (\<lambda>k. 0)
             [(TestObj Test_D 2, {}), (TestObj Test_A 1, {TestObj Test_D 2}),
              (TestObj Test_B 3, {TestObj Test_D 2}),
              (TestObj Test_C 0, {TestObj Test_A 1, TestObj Test_B 3})] =
           Inr [TestObj Test_D 2, TestObj Test_A 1, TestObj Test_B 3, TestObj Test_C 0]"
    by code_simp
  show ?thesis
    using diamond_universe e r st cnt t s unfolding i by simp
qed

subsection \<open>Setup errors\<close>

text \<open>
  Claim C7 says that every registered set with a requires-cycle fails to resolve with
  CircularDependency. With the cycle registered, a run filtered to the class \<open>X\<close> never
  visits the cycle: it resolves, and executes \<open>X\<close>. And where a class of the cycle requires
  a property that has no producer, the run fails with MissingProperty instead: the lookup
  of the required properties comes before the search of the ancestors.
\<close>

theorem C7_counterexample:
  "run_summary (RunTests python27_names 10 cycle_classes (\<lambda>t dev. dev) (\<lambda>k. 0) cycle_runner (Some [''X''])
      [(empty_status_response, Some [])]
        :: (example test_obj list \<times> (example, int) run_state) outcome) =
     (None, False, [TestObj Test_X 0], [TestObj Test_X 0], 1,
      [(DEBUG, Test_order), (DEBUG, Starting_test), (INFO, Test_finished)]) \<and>
   run_summary (RunTests python27_names 10 missing_cycle_classes (\<lambda>t dev. dev) (\<lambda>k. 0) missing_cycle_runner None
      [(empty_status_response, Some [])]
        :: (example test_obj list \<times> (example, int) run_state) outcome) =
     (Some (MissingPropertyException ''ghost''), False, [], [], 0, [])"
  by code_simp

text \<open>
  Claim C7, amended. Take a finite set \<open>U\<close> of classes that is closed under dependencies,
  with a producer for every required property and fewer classes than the recursion limit.
  When the selection of a run lies in \<open>U\<close> and one of the selected classes reaches a class
  that lies on a cycle, \<^verbatim>\<open>_InstantiateTests\<close> raises CircularDepdendancyException, and
  \<^verbatim>\<open>RunTests\<close> raises it before the loop over the tests: no test is executed, and the
  fetcher is as it was.
\<close>

theorem C7_amended_reachable_cycle_is_circular:
  assumes "universe classes (property_map self) U" and "card U < n"
    and "set (tests_to_run classes self filter_arg) \<subseteq> U"
    and "c \<in> set (tests_to_run classes self filter_arg)"
    and "(c, d) \<in> (class_rel classes (property_map self))\<^sup>*"
    and "(d, d) \<in> (class_rel classes (property_map self))\<^sup>+"
  shows "InstantiateTests n classes (property_map self) (tests_to_run classes self filter_arg) =
           Inl CircularDepdendancyException \<and>
         RunTests builtin n classes Run pick self filter_arg rs =
           Raised CircularDepdendancyException
             ([], \<lparr>fetcher = message_fetcher self,
                   device = DeviceProperties_init (map fst (property_map self)),
                   property = None, executed = []\<rparr>)"
proof -
  have "InstantiateTests n classes (property_map self) (tests_to_run classes self filter_arg) =
          Inl CircularDepdendancyException"
    using assms by (rule InstantiateTests_cycle)
  then show ?thesis by (simp add: RunTests_def)
qed

lemma cycle_property_map: "property_map cycle_runner = [(''b'', Test_B)]"
  by code_simp

lemma cycle_dep_classes:
  "dep_classes cycle_classes (property_map cycle_runner) Test_A = Inr [Test_B]"
  "dep_classes cycle_classes (property_map cycle_runner) Test_B = Inr [Test_A]"
  "dep_classes cycle_classes (property_map cycle_runner) Test_X = Inr []"
  unfolding cycle_property_map by (simp_all add: dep_classes_def cycle_classes_def)

text \<open>The cycle of \<open>A\<close> and \<open>B\<close>, all three classes selected.\<close>

theorem C7_amended_witness:
  "universe cycle_classes (property_map cycle_runner) {Test_A, Test_B, Test_X} \<and>
   tests_to_run cycle_classes cycle_runner None = [Test_A, Test_B, Test_X] \<and>
   (Test_A, Test_A) \<in> (class_rel cycle_classes (property_map cycle_runner))\<^sup>+ \<and>
   InstantiateTests 10 cycle_classes (property_map cycle_runner)
     (tests_to_run cycle_classes cycle_runner None) = Inl CircularDepdendancyException \<and>
   run_summary (RunTests python27_names 10 cycle_classes (\<lambda>t dev. dev) (\<lambda>k. 0) cycle_runner None
      [(empty_status_response, Some [])]
        :: (example test_obj list \<times> (example, int) run_state) outcome) =
     (Some CircularDepdendancyException, False, [], [], 0, [])"
proof -
  let ?pm = "property_map cycle_runner"
  let ?U = "{Test_A, Test_B, Test_X}"
  have u: "universe cycle_classes ?pm ?U"
    by (simp add: universe_def cycle_dep_classes)
  have sel: "tests_to_run cycle_classes cycle_runner None = [Test_A, Test_B, Test_X]"
    by code_simp
  have "(Test_A, Test_B) \<in> class_rel cycle_classes ?pm"
    "(Test_B, Test_A) \<in> class_rel cycle_classes ?pm"
    by (simp_all add: class_rel_def cycle_dep_classes)
  then have cyc: "(Test_A, Test_A) \<in> (class_rel cycle_classes ?pm)\<^sup>+" by auto
  have h1: "card ?U < 10" by simp
  have h2: "set (tests_to_run cycle_classes cycle_runner None) \<subseteq> ?U" unfolding sel by simp
  have h3: "Test_A \<in> set (tests_to_run cycle_classes cycle_runner None)" unfolding sel by simp
  have h4: "(Test_A, Test_A) \<in> (class_rel cycle_classes ?pm)\<^sup>*" by simp
  note inst = C7_amended_reachable_cycle_is_circular [OF u h1 h2 h3 h4 cyc,
      where Run = "\<lambda>t (dev :: int DeviceProperties). dev" and pick = "\<lambda>k. 0"
        and rs = "[(empty_status_response, Some [])]"]
  have "fetches (message_fetcher cycle_runner) = 0 \<and> log (message_fetcher cycle_runner) = []"
    by code_simp
  then show ?thesis
    using u sel cyc inst by (simp add: run_summary_def)
qed

end
